theory Spec2Isabelle
  imports Complex_Main
begin

section \<open>Errors\<close>

text \<open>
  The exceptions the sensitivity toolbox raises or lets through, as values.
  \<open>RuntimeError\<close> is the refusal to re-use a block, \<open>ValueError\<close> a rejected
  designated component or a perturbation list of the wrong length; the others come from
  attribute, index and expression operations of the modelling framework and from the
  external solvers.
\<close>

datatype error =
    RuntimeError
  | ValueError
  | AttributeError
  | KeyError
  | TypeError
  | IndexError
  | OSError
  | SolverError

section \<open>Components and their data\<close>

text \<open>
  A component is a parameter, a variable or a constraint container, scalar or indexed.
  A data object of a component is addressed by the component and a key: the sentinel
  \<open>NotAnIndex\<close> for a scalar component, \<open>Idx k\<close> for the element \<open>k\<close> of an indexed one.
  Python object identity is the pair (component id, key); ids are allocated from the
  component store, so a created component never shares its identity with an older one.
  A data object has a value or none (an uninitialised variable or parameter);
  \<open>value(...)\<close> of the framework raises \<open>ValueError\<close> on one that has none. A Python
  number is modelled by the real it denotes; where the code computes with numbers
  (the subtraction of line 397) the operation, which rounds on floats, is a parameter.
\<close>

datatype ctype = Param | Var | Constraint | Objective

datatype key = NotAnIndex | Idx nat

type_synonym cid = nat

type_synonym dref = "cid \<times> key"

record component =
  ctype :: ctype
  local_name :: string
  mutable :: bool
  is_indexed :: bool
  index_set :: "nat list"
  data_value :: "key \<Rightarrow> real option"
  data_fixed :: "key \<Rightarrow> bool"

type_synonym store = "(cid \<times> component) list"

definition fresh_cid :: "store \<Rightarrow> cid" where
  "fresh_cid cs = Suc (foldr max (map fst cs) 0)"

definition value_of :: "store \<Rightarrow> dref \<Rightarrow> real option" where
  "value_of cs d = (case map_of cs (fst d) of
                      Some cmp \<Rightarrow> data_value cmp (snd d)
                    | None \<Rightarrow> None)"

definition fixed_of :: "store \<Rightarrow> dref \<Rightarrow> bool" where
  "fixed_of cs d = (case map_of cs (fst d) of
                      Some cmp \<Rightarrow> data_fixed cmp (snd d)
                    | None \<Rightarrow> False)"

text \<open>\<open>var.fix()\<close> and \<open>var.unfix()\<close>: set the fixed flag of one data object.\<close>

definition set_fixed :: "bool \<Rightarrow> dref \<Rightarrow> store \<Rightarrow> store" where
  "set_fixed f d cs =
     map (\<lambda>(c, cmp). if c = fst d
                        then (c, cmp\<lparr>data_fixed := (data_fixed cmp)(snd d := f)\<rparr>)
                        else (c, cmp)) cs"

text \<open>
  \<open>sorted_robust(comp)\<close> iterates the keys of an indexed component in sorted order.
\<close>

definition sorted_robust :: "nat list \<Rightarrow> nat list" where
  "sorted_robust ks = sort (remdups ks)"

text \<open>\<open>_generate_component_items\<close> for one component: (index, data object) pairs.\<close>

definition generate_component_items :: "cid \<Rightarrow> component \<Rightarrow> (key \<times> dref) list" where
  "generate_component_items c cmp =
     (if is_indexed cmp
      then map (\<lambda>k. (Idx k, (c, Idx k))) (sorted_robust (index_set cmp))
      else [(NotAnIndex, (c, NotAnIndex))])"

section \<open>Expressions\<close>

text \<open>
  Expression trees with identifiable leaves. A named expression wraps a
  sub-expression. Relational expressions are what a constraint holds: an equality, a
  one-sided inequality \<open>lhs \<le> rhs\<close>, or a ranged inequality \<open>lower \<le> body \<le> upper\<close>.
\<close>

datatype expr =
    Const real
  | ParamLeaf dref
  | VarLeaf dref
  | NamedExpr string expr
  | Sum expr expr
  | Diff expr expr
  | Prod expr expr
  | Neg expr

datatype relexpr =
    EqualityExpr expr expr
  | InequalityExpr expr expr
  | RangedExpr expr expr expr

text \<open>
  \<open>ExpressionReplacementVisitor(substitute=m, remove_named_expressions=True)\<close>:
  a leaf whose identity is a key of \<open>m\<close> is replaced by the variable \<open>m\<close> gives,
  named expressions are inlined, everything else is rebuilt as it is.
\<close>

fun dfs_postorder_stack :: "(dref \<rightharpoonup> dref) \<Rightarrow> expr \<Rightarrow> expr" where
  "dfs_postorder_stack m (Const c) = Const c"
| "dfs_postorder_stack m (ParamLeaf p) =
     (case m p of Some v \<Rightarrow> VarLeaf v | None \<Rightarrow> ParamLeaf p)"
| "dfs_postorder_stack m (VarLeaf v) = VarLeaf v"
| "dfs_postorder_stack m (NamedExpr n e) = dfs_postorder_stack m e"
| "dfs_postorder_stack m (Sum a b) = Sum (dfs_postorder_stack m a) (dfs_postorder_stack m b)"
| "dfs_postorder_stack m (Diff a b) = Diff (dfs_postorder_stack m a) (dfs_postorder_stack m b)"
| "dfs_postorder_stack m (Prod a b) = Prod (dfs_postorder_stack m a) (dfs_postorder_stack m b)"
| "dfs_postorder_stack m (Neg a) = Neg (dfs_postorder_stack m a)"

fun dfs_postorder_stack_relational :: "(dref \<rightharpoonup> dref) \<Rightarrow> relexpr \<Rightarrow> relexpr" where
  "dfs_postorder_stack_relational m (EqualityExpr a b) =
     EqualityExpr (dfs_postorder_stack m a) (dfs_postorder_stack m b)"
| "dfs_postorder_stack_relational m (InequalityExpr a b) =
     InequalityExpr (dfs_postorder_stack m a) (dfs_postorder_stack m b)"
| "dfs_postorder_stack_relational m (RangedExpr l b u) =
     RangedExpr (dfs_postorder_stack m l) (dfs_postorder_stack m b) (dfs_postorder_stack m u)"

text \<open>
  \<open>a <= b\<close> on two expressions builds an inequality, unless both are numeric
  constants: then Python compares them and the result is a plain boolean, not an
  expression (\<open>None\<close> here). \<open>b >= a\<close> is the same inequality.
\<close>

fun is_numeric_constant :: "expr \<Rightarrow> bool" where
  "is_numeric_constant (Const c) = True"
| "is_numeric_constant (ParamLeaf p) = False"
| "is_numeric_constant (VarLeaf v) = False"
| "is_numeric_constant (NamedExpr n e) = False"
| "is_numeric_constant (Sum a b) = False"
| "is_numeric_constant (Diff a b) = False"
| "is_numeric_constant (Prod a b) = False"
| "is_numeric_constant (Neg a) = False"

definition le_relation :: "expr \<Rightarrow> expr \<Rightarrow> relexpr option" where
  "le_relation a b =
     (if is_numeric_constant a \<and> is_numeric_constant b then None
      else Some (InequalityExpr a b))"

text \<open>The value of an expression, and whether a relation holds, under an assignment
  of values to the leaves.\<close>

fun eval_expr :: "(dref \<Rightarrow> real) \<Rightarrow> expr \<Rightarrow> real" where
  "eval_expr \<sigma> (Const c) = c"
| "eval_expr \<sigma> (ParamLeaf p) = \<sigma> p"
| "eval_expr \<sigma> (VarLeaf v) = \<sigma> v"
| "eval_expr \<sigma> (NamedExpr n e) = eval_expr \<sigma> e"
| "eval_expr \<sigma> (Sum a b) = eval_expr \<sigma> a + eval_expr \<sigma> b"
| "eval_expr \<sigma> (Diff a b) = eval_expr \<sigma> a - eval_expr \<sigma> b"
| "eval_expr \<sigma> (Prod a b) = eval_expr \<sigma> a * eval_expr \<sigma> b"
| "eval_expr \<sigma> (Neg a) = - eval_expr \<sigma> a"

fun satisfies :: "(dref \<Rightarrow> real) \<Rightarrow> relexpr \<Rightarrow> bool" where
  "satisfies \<sigma> (EqualityExpr a b) = (eval_expr \<sigma> a = eval_expr \<sigma> b)"
| "satisfies \<sigma> (InequalityExpr a b) = (eval_expr \<sigma> a \<le> eval_expr \<sigma> b)"
| "satisfies \<sigma> (RangedExpr l b u) =
     (eval_expr \<sigma> l \<le> eval_expr \<sigma> b \<and> eval_expr \<sigma> b \<le> eval_expr \<sigma> u)"

section \<open>Objectives, constraints, the sensitivity block, the model\<close>

record objective =
  obj_active :: bool
  obj_name :: string
  obj_expr :: expr

record constraint =
  active :: bool
  equality :: bool
  lower :: "expr option"
  body :: expr
  upper :: "expr option"

text \<open>
  \<open>con.expr\<close>: the relational expression of a constraint, built from its body and
  bounds. A constraint without the bound its form needs has no expression; reading
  it raises.
\<close>

definition con_expr :: "constraint \<Rightarrow> relexpr option" where
  "con_expr con =
     (if equality con then map_option (EqualityExpr (body con)) (upper con)
      else (case lower con of
              None \<Rightarrow> map_option (InequalityExpr (body con)) (upper con)
            | Some l \<Rightarrow> (case upper con of
                          None \<Rightarrow> Some (InequalityExpr l (body con))
                        | Some u \<Rightarrow> Some (RangedExpr l (body con) u))))"

text \<open>
  A substitution record \<open>(var, param, list_idx, comp_idx)\<close>: the free entity, the
  parameter-valued entity, the position in the designated list, the container index.
\<close>

type_synonym sens_record = "dref \<times> dref \<times> nat \<times> key"

text \<open>
  The block \<open>_SENSITIVITY_TOOLBOX_DATA\<close>. \<open>attrs\<close> holds the plain Python attributes
  set on the block under their names (\<open>hasattr\<close> looks a name up there);
  \<open>decl\<close> the variables and parameters added to it, by name; \<open>constList\<close> is absent
  until the rewriter creates it; \<open>paramConst\<close> is the id of the pinning constraint
  list with its constraints, position \<open>n\<close> (from 1) being \<open>paramConst[n]\<close>.
\<close>

record block =
  attrs :: "string \<rightharpoonup> bool"
  sens_data_list :: "sens_record list"
  paramList_of :: "cid option list"
  decl :: "(string \<times> cid) list"
  block_objectives :: "(string \<times> expr) list"
  constList :: "relexpr list option"
  paramConst :: "(cid \<times> relexpr list) option"

datatype direction = EXPORT | IMPORT | IMPORT_EXPORT

record suffix =
  direction :: direction
  entries :: "dref \<rightharpoonup> real"

text \<open>
  The store \<open>comps\<close> holds every component object by its id; \<open>declared\<close> lists the
  components the user put on the model. The components of the sensitivity block
  are on the model as long as the block is.
\<close>

record model =
  comps :: store
  declared :: "cid list"
  objectives :: "objective list"
  constraints :: "constraint list"
  sens_block :: "block option"
  suffixes :: "string \<rightharpoonup> suffix"


section \<open>Setting up the sensitivity block\<close>

text \<open>
  \<open>unique_component_name\<close> of the framework returns the requested name when the block
  does not use it, and otherwise extends it with digits drawn at random until it is
  unused. The model takes the choice as a parameter: the names in use and the
  requested name give the name chosen.
\<close>

type_synonym namer = "string list \<Rightarrow> string \<Rightarrow> string"

definition block_names :: "block \<Rightarrow> string list" where
  "block_names b = map fst (decl b) @ map fst (block_objectives b)"

definition hasattr :: "block \<Rightarrow> string \<Rightarrow> bool" where
  "hasattr b name = (attrs b name \<noteq> None)"

text \<open>
  The existing block, lines 196 to 210: a block whose attribute
  \<open>has_replaced_expressions\<close> exists and is false is torn down, its free entities
  fixed again; any other existing block makes the call raise. The components of a
  deleted block stay in the store as objects no longer on the model, so their ids
  are not given out again.
\<close>

definition refix :: "sens_record list \<Rightarrow> store \<Rightarrow> store" where
  "refix sdl cs = fold (\<lambda>(var, _, _, _). set_fixed True var) sdl cs"

definition remove_existing_block :: "model \<Rightarrow> error + model" where
  "remove_existing_block inst =
     (case sens_block inst of
        None \<Rightarrow> Inr inst
      | Some existing_block \<Rightarrow>
          if hasattr existing_block ''has_replaced_expressions''
             \<and> attrs existing_block ''has_replaced_expressions'' = Some False
          then Inr (inst\<lparr>comps := refix (sens_data_list existing_block) (comps inst),
                         sens_block := None\<rparr>)
          else Inl RuntimeError)"

text \<open>
  The values a created component is initialised with: \<open>{k: value(comp[k]) for k in
  comp.index_set()}\<close> for an indexed component, \<open>value(comp)\<close> for a scalar one.
  \<open>value\<close> raises \<open>ValueError\<close> on an element that has no value.
\<close>

definition initialize :: "component \<Rightarrow> error + (key \<Rightarrow> real option)" where
  "initialize cmp =
     (if is_indexed cmp
      then (if \<exists>j \<in> set (index_set cmp). data_value cmp (Idx j) = None
            then Inl ValueError
            else Inr (\<lambda>k. case k of
                            Idx j \<Rightarrow> if j \<in> set (index_set cmp)
                                     then data_value cmp (Idx j) else None
                          | NotAnIndex \<Rightarrow> None))
      else (case data_value cmp NotAnIndex of
              None \<Rightarrow> Inl ValueError
            | Some v \<Rightarrow> Inr (\<lambda>k. case k of
                                  NotAnIndex \<Rightarrow> Some v
                                | Idx j \<Rightarrow> None)))"

text \<open>A designated mutable parameter, lines 231 to 248: add a variable.\<close>

definition add_var :: "namer \<Rightarrow> nat \<Rightarrow> cid \<Rightarrow> component \<Rightarrow> (key \<Rightarrow> real option)
                        \<Rightarrow> store \<Rightarrow> block \<Rightarrow> store \<times> block" where
  "add_var uniq i c cmp d cs b =
     (let n = fresh_cid cs;
          name = uniq (block_names b) (local_name cmp);
          var = \<lparr>ctype = Var, local_name = name, mutable = False,
                 is_indexed = is_indexed cmp, index_set = index_set cmp,
                 data_value = d, data_fixed = (\<lambda>_. False)\<rparr>
      in (cs @ [(n, var)],
          b\<lparr>decl := decl b @ [(name, n)],
            sens_data_list := sens_data_list b @
              (if is_indexed cmp
               then map (\<lambda>(idx, param). ((n, idx), param, i, idx))
                      (generate_component_items c cmp)
               else [((n, NotAnIndex), (c, NotAnIndex), i, NotAnIndex)])\<rparr>))"

text \<open>A designated fixed variable, lines 258 to 275: add a mutable parameter.\<close>

definition add_param :: "namer \<Rightarrow> nat \<Rightarrow> cid \<Rightarrow> component \<Rightarrow> (key \<Rightarrow> real option)
                          \<Rightarrow> store \<Rightarrow> block \<Rightarrow> store \<times> block" where
  "add_param uniq i c cmp d cs b =
     (let n = fresh_cid cs;
          name = uniq (block_names b) (local_name cmp);
          param = \<lparr>ctype = Param, local_name = name, mutable = True,
                   is_indexed = is_indexed cmp, index_set = index_set cmp,
                   data_value = d, data_fixed = (\<lambda>_. False)\<rparr>
      in (cs @ [(n, param)],
          b\<lparr>decl := decl b @ [(name, n)],
            sens_data_list := sens_data_list b @
              (if is_indexed cmp
               then map (\<lambda>(idx, var). (var, (n, idx), i, idx))
                      (generate_component_items c cmp)
               else [((c, NotAnIndex), (n, NotAnIndex), i, NotAnIndex)])\<rparr>))"

text \<open>
  The loop over \<open>enumerate(paramList)\<close>, lines 224 to 275. An entry that was not
  found on the model has no \<open>ctype\<close>; a component that is neither a parameter nor a
  variable is passed over.
\<close>

fun planner :: "namer \<Rightarrow> nat \<Rightarrow> cid option list \<Rightarrow> store \<Rightarrow> block
                  \<Rightarrow> error option \<times> store \<times> block" where
  "planner uniq i [] cs b = (None, cs, b)"
| "planner uniq i (entry # rest) cs b =
     (case entry of
        None \<Rightarrow> (Some AttributeError, cs, b)
      | Some c \<Rightarrow>
         (case map_of cs c of
            None \<Rightarrow> (Some AttributeError, cs, b)
          | Some cmp \<Rightarrow>
             if ctype cmp = Param then
               (if \<not> mutable cmp then (Some ValueError, cs, b)
                else (case initialize cmp of
                        Inl e \<Rightarrow> (Some e, cs, b)
                      | Inr d \<Rightarrow>
                         (case add_var uniq i c cmp d cs b of
                            (cs', b') \<Rightarrow> planner uniq (Suc i) rest cs' b')))
             else if ctype cmp = Var then
               (if \<exists>(_, data) \<in> set (generate_component_items c cmp). \<not> fixed_of cs data
                then (Some ValueError, cs, b)
                else (case initialize cmp of
                        Inl e \<Rightarrow> (Some e, cs, b)
                      | Inr d \<Rightarrow>
                         (case add_param uniq i c cmp d cs b of
                            (cs', b') \<Rightarrow> planner uniq (Suc i) rest cs' b')))
             else planner uniq (Suc i) rest cs b))"

text \<open>Lines 277 to 279: unfix the free entity of every record.\<close>

definition unfix_all :: "sens_record list \<Rightarrow> store \<Rightarrow> store" where
  "unfix_all sdl cs = fold (\<lambda>(var, _, _, _). set_fixed False var) sdl cs"

text \<open>
  Lines 282 to 284: the substitution map, from the parameter of every record whose
  designated component is a parameter to its variable. It is built as a dictionary
  from the pairs in record order, so a later pair with the same key replaces an
  earlier one.
\<close>

definition entry_ctype :: "store \<Rightarrow> cid option list \<Rightarrow> nat \<Rightarrow> ctype option" where
  "entry_ctype cs paramList list_idx =
     (if list_idx < length paramList
      then (case paramList ! list_idx of
              None \<Rightarrow> None
            | Some c \<Rightarrow> map_option ctype (map_of cs c))
      else None)"

definition variableSubMap :: "store \<Rightarrow> cid option list \<Rightarrow> sens_record list \<Rightarrow> (dref \<times> dref) list" where
  "variableSubMap cs paramList sdl =
     map (\<lambda>(var, param, list_idx, _). (param, var))
       (filter (\<lambda>(var, param, list_idx, _). entry_ctype cs paramList list_idx = Some Param) sdl)"

definition dict :: "('k \<times> 'v) list \<Rightarrow> ('k \<rightharpoonup> 'v)" where
  "dict kvs = map_of (rev kvs)"

text \<open>Lines 302 to 308: every active objective is rewritten into the block and
  deactivated.\<close>

fun rewrite_objectives :: "namer \<Rightarrow> (dref \<rightharpoonup> dref) \<Rightarrow> objective list \<Rightarrow> block
                             \<Rightarrow> objective list \<times> block" where
  "rewrite_objectives uniq m [] b = ([], b)"
| "rewrite_objectives uniq m (obj # objs) b =
     (if obj_active obj
      then (let tempName = uniq (block_names b) (obj_name obj);
                new_expr = dfs_postorder_stack m (obj_expr obj);
                b' = b\<lparr>block_objectives := block_objectives b @ [(tempName, new_expr)]\<rparr>
            in case rewrite_objectives uniq m objs b' of
                 (objs', b'') \<Rightarrow> (obj\<lparr>obj_active := False\<rparr> # objs', b''))
      else (case rewrite_objectives uniq m objs b of
              (objs', b') \<Rightarrow> (obj # objs', b')))"

text \<open>
  Lines 318 to 340: every active constraint is rewritten into \<open>constList\<close> and
  deactivated. A ranged inequality is broken into two inequalities, installed as
  the source writes them: \<open>new_lower <= new_upper\<close> and \<open>new_upper >= new_body\<close>.
  \<open>constList.add\<close> raises \<open>ValueError\<close> when it is given a plain boolean.
\<close>

fun rewrite_constraints :: "(dref \<rightharpoonup> dref) \<Rightarrow> constraint list \<Rightarrow> relexpr list
                              \<Rightarrow> error option \<times> constraint list \<times> relexpr list" where
  "rewrite_constraints m [] cl = (None, [], cl)"
| "rewrite_constraints m (con # cons) cl =
     (if \<not> active con
      then (case rewrite_constraints m cons cl of
              (e, cons', cl') \<Rightarrow> (e, con # cons', cl'))
      else if equality con
      then (case con_expr con of
              None \<Rightarrow> (Some AttributeError, con # cons, cl)
            | Some ex \<Rightarrow>
               (case rewrite_constraints m cons (cl @ [dfs_postorder_stack_relational m ex]) of
                  (e, cons', cl') \<Rightarrow> (e, con\<lparr>active := False\<rparr> # cons', cl')))
      else (case (lower con, upper con) of
              (Some l, Some u) \<Rightarrow>
                (let new_body = dfs_postorder_stack m (body con);
                     new_lower = dfs_postorder_stack m l;
                     new_upper = dfs_postorder_stack m u
                 in case le_relation new_lower new_upper of
                      None \<Rightarrow> (Some ValueError, con # cons, cl)
                    | Some con_lower \<Rightarrow>
                       (case le_relation new_body new_upper of
                          None \<Rightarrow> (Some ValueError, con # cons, cl @ [con_lower])
                        | Some con_upper \<Rightarrow>
                           (case rewrite_constraints m cons (cl @ [con_lower, con_upper]) of
                              (e, cons', cl') \<Rightarrow> (e, con\<lparr>active := False\<rparr> # cons', cl'))))
            | _ \<Rightarrow>
               (case con_expr con of
                  None \<Rightarrow> (Some AttributeError, con # cons, cl)
                | Some ex \<Rightarrow>
                   (case rewrite_constraints m cons (cl @ [dfs_postorder_stack_relational m ex]) of
                      (e, cons', cl') \<Rightarrow> (e, con\<lparr>active := False\<rparr> # cons', cl')))))"

text \<open>Lines 286 to 343: the rewriting runs only when the substitution map is not
  empty, and marks the block.\<close>

definition rewrite_expressions :: "namer \<Rightarrow> cid option list \<Rightarrow> model \<Rightarrow> block
                                     \<Rightarrow> error option \<times> model \<times> block" where
  "rewrite_expressions uniq paramList inst b =
     (let subs = variableSubMap (comps inst) paramList (sens_data_list b) in
      if subs \<noteq> []
      then (case rewrite_objectives uniq (dict subs) (objectives inst) b of
              (objs, b1) \<Rightarrow>
                (case rewrite_constraints (dict subs) (constraints inst) [] of
                   (Some e, cons, cl) \<Rightarrow>
                     (Some e, inst\<lparr>objectives := objs, constraints := cons\<rparr>,
                      b1\<lparr>constList := Some cl\<rparr>)
                 | (None, cons, cl) \<Rightarrow>
                     (None, inst\<lparr>objectives := objs, constraints := cons\<rparr>,
                      b1\<lparr>constList := Some cl,
                         attrs := (attrs b1)(''_has_replaced_expressions'' \<mapsto> True)\<rparr>)))
      else (None, inst, b))"


section \<open>Pinning constraints and annotation slots\<close>

definition SIPOPT_SUFFIXES :: "(string \<times> direction) list" where
  "SIPOPT_SUFFIXES =
     [(''sens_state_0'', EXPORT),
      (''sens_state_1'', EXPORT),
      (''sens_state_value_1'', EXPORT),
      (''sens_init_constr'', EXPORT),
      (''sens_sol_state_1'', IMPORT),
      (''sens_sol_state_1_z_L'', IMPORT),
      (''sens_sol_state_1_z_U'', IMPORT)]"

definition K_AUG_SUFFIXES :: "(string \<times> direction) list" where
  "K_AUG_SUFFIXES =
     [(''ipopt_zL_out'', IMPORT),
      (''ipopt_zU_out'', IMPORT),
      (''ipopt_zL_in'', EXPORT),
      (''ipopt_zU_in'', EXPORT),
      (''dual'', IMPORT_EXPORT),
      (''dcdp'', EXPORT),
      (''DeltaP'', EXPORT)]"

text \<open>\<open>_add_sensitivity_suffixes\<close>: a suffix is added only under a name not in use.\<close>

definition add_sensitivity_suffixes :: "(string \<rightharpoonup> suffix) \<Rightarrow> (string \<rightharpoonup> suffix)" where
  "add_sensitivity_suffixes S =
     fold (\<lambda>(name, dir) S.
             if S name = None
             then S(name \<mapsto> \<lparr>direction = dir, entries = Map.empty\<rparr>)
             else S)
       (SIPOPT_SUFFIXES @ K_AUG_SUFFIXES) S"

text \<open>\<open>instance.<name>[k] = v\<close>: the attribute lookup raises when the model has no
  suffix of that name.\<close>

definition set_suffix :: "string \<Rightarrow> dref \<Rightarrow> real \<Rightarrow> model \<Rightarrow> error option \<times> model" where
  "set_suffix name k v inst =
     (case suffixes inst name of
        None \<Rightarrow> (Some AttributeError, inst)
      | Some s \<Rightarrow>
          (None, inst\<lparr>suffixes := (suffixes inst)(name \<mapsto> s\<lparr>entries := (entries s)(k \<mapsto> v)\<rparr>)\<rparr>))"

text \<open>Running a step on the state an earlier step left, unless that step raised.\<close>

definition and_then :: "error option \<times> 's \<Rightarrow> ('s \<Rightarrow> error option \<times> 's) \<Rightarrow> error option \<times> 's" where
  "and_then r f = (case r of (Some e, s) \<Rightarrow> (Some e, s) | (None, s) \<Rightarrow> f s)"

text \<open>Lines 345 to 348: one pinning constraint \<open>var - param == 0\<close> per record.\<close>

definition pinning_constraint :: "sens_record \<Rightarrow> relexpr" where
  "pinning_constraint r =
     (case r of (var, param, _, _) \<Rightarrow> EqualityExpr (Diff (VarLeaf var) (ParamLeaf param)) (Const 0))"

definition add_paramConst :: "store \<Rightarrow> block \<Rightarrow> cid \<times> store \<times> block" where
  "add_paramConst cs b =
     (let pc = fresh_cid cs;
          cons = map pinning_constraint (sens_data_list b);
          clist = \<lparr>ctype = Constraint, local_name = ''paramConst'', mutable = False,
                   is_indexed = True, index_set = [1 ..< Suc (length cons)],
                   data_value = (\<lambda>_. None), data_fixed = (\<lambda>_. False)\<rparr>
      in (pc, cs @ [(pc, clist)], b\<lparr>paramConst := Some (pc, cons)\<rparr>))"

text \<open>Lines 353 to 363: the loop over \<open>enumerate(sens_data_list)\<close> that stamps the
  slots; \<open>i\<close> is the position of the first record of the list that is left.\<close>

fun stamp :: "cid \<Rightarrow> nat \<Rightarrow> sens_record list \<Rightarrow> model \<Rightarrow> error option \<times> model" where
  "stamp pc i [] inst = (None, inst)"
| "stamp pc i ((var, _, _, _) # rs) inst =
     (let idx = i + 1;
          con = (pc, Idx idx)
      in case and_then (and_then (and_then
                (set_suffix ''sens_state_0'' var (real idx) inst)
                (set_suffix ''sens_state_1'' var (real idx)))
                (set_suffix ''sens_init_constr'' con (real idx)))
                (set_suffix ''dcdp'' con (real idx)) of
           (Some e, inst') \<Rightarrow> (Some e, inst')
         | (None, inst') \<Rightarrow> stamp pc (Suc i) rs inst')"

definition pin_and_annotate :: "model \<Rightarrow> block \<Rightarrow> error option \<times> model" where
  "pin_and_annotate inst b =
     (case add_paramConst (comps inst) b of
        (pc, cs, b1) \<Rightarrow>
          stamp pc 0 (sens_data_list b1)
            (inst\<lparr>comps := cs, sens_block := Some b1,
                  suffixes := add_sensitivity_suffixes (suffixes inst)\<rparr>))"

section \<open>The sensitivity interface\<close>

text \<open>
  \<open>cloned\<close> says whether the working model is a clone (\<open>orig is not instance\<close>);
  \<open>has_block\<close> whether \<open>self.block\<close> has been assigned; the block it names is the
  block of the working model. A clone has the components of the original under
  the same ids. A reference of \<open>paramList\<close> is the id of a component object. For a
  clone it is looked up on the working model through its \<open>ComponentUID\<close>:
  \<open>find_component_on\<close> gives \<open>None\<close> for a component that is not on it (a component
  for which no identifier relative to the original model can be built is read the
  same way). Without a clone the list is taken as it is (line 187), whether its
  components are on the model or not. A reference always names an object in
  Python: \<open>reference\<close> reads an id that names none, when the call starts, as no
  component.
\<close>

record SensitivityInterface =
  original_model :: model
  model_instance :: model
  cloned :: bool
  has_block :: bool

definition clone :: "model \<Rightarrow> model" where
  "clone inst = inst"

definition SensitivityInterface_init :: "model \<Rightarrow> bool \<Rightarrow> SensitivityInterface" where
  "SensitivityInterface_init inst cloneModel =
     \<lparr>original_model = inst,
      model_instance = (if cloneModel then clone inst else inst),
      cloned = cloneModel,
      has_block = False\<rparr>"

definition on_model :: "model \<Rightarrow> cid \<Rightarrow> bool" where
  "on_model inst c =
     (c \<in> set (declared inst)
      \<or> (case sens_block inst of None \<Rightarrow> False | Some b \<Rightarrow> c \<in> snd ` set (decl b)))"

definition reference :: "store \<Rightarrow> cid \<Rightarrow> cid option" where
  "reference cs c = (case map_of cs c of None \<Rightarrow> None | Some _ \<Rightarrow> Some c)"

definition find_component_on :: "model \<Rightarrow> cid \<Rightarrow> cid option" where
  "find_component_on inst c = (if on_model inst c then reference (comps inst) c else None)"

definition new_block :: "cid option list \<Rightarrow> block" where
  "new_block paramList =
     \<lparr>attrs = [''_has_replaced_expressions'' \<mapsto> False],
      sens_data_list = [],
      paramList_of = paramList,
      decl = [],
      block_objectives = [],
      constList = None,
      paramConst = None\<rparr>"

text \<open>Lines 187 to 189: the designated list as the rest of the call reads it.\<close>

definition resolve_paramList :: "SensitivityInterface \<Rightarrow> cid list \<Rightarrow> cid option list" where
  "resolve_paramList self paramList0 =
     (if cloned self
      then map (find_component_on (model_instance self)) paramList0
      else map (reference (comps (model_instance self))) paramList0)"

definition setup_sensitivity :: "namer \<Rightarrow> SensitivityInterface \<Rightarrow> cid list
                                   \<Rightarrow> error option \<times> SensitivityInterface" where
  "setup_sensitivity uniq self paramList0 =
     (let inst = model_instance self;
          paramList = resolve_paramList self paramList0
      in case remove_existing_block inst of
           Inl e \<Rightarrow> (Some e, self)
         | Inr inst1 \<Rightarrow>
            (let self1 = self\<lparr>has_block := True\<rparr> in
             case planner uniq 0 paramList (comps inst1) (new_block paramList) of
               (Some e, cs, b) \<Rightarrow>
                 (Some e, self1\<lparr>model_instance := inst1\<lparr>comps := cs, sens_block := Some b\<rparr>\<rparr>)
             | (None, cs, b) \<Rightarrow>
                (case rewrite_expressions uniq paramList
                        (inst1\<lparr>comps := unfix_all (sens_data_list b) cs\<rparr>) b of
                   (Some e, inst2, b2) \<Rightarrow>
                     (Some e, self1\<lparr>model_instance := inst2\<lparr>sens_block := Some b2\<rparr>\<rparr>)
                 | (None, inst2, b2) \<Rightarrow>
                    (case pin_and_annotate inst2 b2 of
                       (e, inst3) \<Rightarrow> (e, self1\<lparr>model_instance := inst3\<rparr>)))))"

section \<open>Perturbation\<close>

text \<open>
  An entry of the perturbation list: a plain number, a scalar component, or an
  indexed component (or dictionary) of values. \<open>value\<close> of an indexed entry
  raises; subscripting a number raises \<open>TypeError\<close>, subscripting a scalar
  component or a missing index raises \<open>KeyError\<close>.
\<close>

datatype perturbation =
    Number real
  | ScalarComponent real
  | IndexedComponent "nat \<rightharpoonup> real"

fun value_ptb :: "perturbation \<Rightarrow> error + real" where
  "value_ptb (Number r) = Inr r"
| "value_ptb (ScalarComponent r) = Inr r"
| "value_ptb (IndexedComponent m) = Inl TypeError"

fun getitem_ptb :: "perturbation \<Rightarrow> nat \<Rightarrow> error + real" where
  "getitem_ptb (Number r) k = Inl TypeError"
| "getitem_ptb (ScalarComponent r) k = Inl KeyError"
| "getitem_ptb (IndexedComponent m) k = (case m k of None \<Rightarrow> Inl KeyError | Some r \<Rightarrow> Inr r)"

text \<open>Lines 382 to 390: the perturbation target of a record.\<close>

definition resolve_ptb :: "perturbation list \<Rightarrow> nat \<Rightarrow> key \<Rightarrow> error + real" where
  "resolve_ptb perturbList list_idx comp_idx =
     (if \<not> list_idx < length perturbList then Inl IndexError
      else (case comp_idx of
              NotAnIndex \<Rightarrow> value_ptb (perturbList ! list_idx)
            | Idx k \<Rightarrow>
               (case getitem_ptb (perturbList ! list_idx) k of
                  Inl TypeError \<Rightarrow> value_ptb (perturbList ! list_idx)
                | Inl e \<Rightarrow> Inl e
                | Inr r \<Rightarrow> Inr r)))"

text \<open>The loop of lines 380 to 397; \<open>n\<close> is the length of \<open>paramConst\<close>, \<open>i\<close> the
  position of the first record of the list that is left.\<close>

text \<open>
  \<open>value(var - ptb)\<close>, line 397: \<open>ValueError\<close> when the variable has no value,
  otherwise Python's difference of the two numbers, the parameter \<open>fsub\<close>.
\<close>

type_synonym subtraction = "real \<Rightarrow> real \<Rightarrow> real"

definition value_minus :: "subtraction \<Rightarrow> store \<Rightarrow> dref \<Rightarrow> real \<Rightarrow> error + real" where
  "value_minus fsub cs var ptb =
     (case value_of cs var of
        None \<Rightarrow> Inl ValueError
      | Some v \<Rightarrow> Inr (fsub v ptb))"

fun perturb_loop :: "subtraction \<Rightarrow> perturbation list \<Rightarrow> cid \<Rightarrow> nat \<Rightarrow> nat
                       \<Rightarrow> sens_record list \<Rightarrow> model \<Rightarrow> error option \<times> model" where
  "perturb_loop fsub perturbList pc n i [] inst = (None, inst)"
| "perturb_loop fsub perturbList pc n i ((var, param, list_idx, comp_idx) # rs) inst =
     (if \<not> i + 1 \<le> n then (Some KeyError, inst)
      else (let con = (pc, Idx (i + 1)) in
            case resolve_ptb perturbList list_idx comp_idx of
              Inl e \<Rightarrow> (Some e, inst)
            | Inr ptb \<Rightarrow>
               (case set_suffix ''sens_state_value_1'' var ptb inst of
                  (Some e, inst1) \<Rightarrow> (Some e, inst1)
                | (None, inst1) \<Rightarrow>
                   (case value_minus fsub (comps inst1) var ptb of
                      Inl e \<Rightarrow> (Some e, inst1)
                    | Inr delta \<Rightarrow>
                       (case set_suffix ''DeltaP'' con delta inst1 of
                          (Some e, inst') \<Rightarrow> (Some e, inst')
                        | (None, inst') \<Rightarrow>
                            perturb_loop fsub perturbList pc n (Suc i) rs inst')))))"

definition perturb_parameters :: "subtraction \<Rightarrow> SensitivityInterface \<Rightarrow> perturbation list
                                    \<Rightarrow> error option \<times> SensitivityInterface" where
  "perturb_parameters fsub self perturbList =
     (let inst = model_instance self in
      if \<not> has_block self then (Some AttributeError, self)
      else (case sens_block inst of
              None \<Rightarrow> (Some AttributeError, self)
            | Some b \<Rightarrow>
               (case paramConst b of
                  None \<Rightarrow> (Some AttributeError, self)
                | Some (pc, cons) \<Rightarrow>
                   if length (paramList_of b) \<noteq> length perturbList
                   then (Some ValueError, self)
                   else (case perturb_loop fsub perturbList pc (length cons) 0
                                 (sens_data_list b) inst of
                           (e, inst') \<Rightarrow> (e, self\<lparr>model_instance := inst'\<rparr>)))))"


section \<open>The driver\<close>

text \<open>
  What the driver touches outside the model: the files of the working directory,
  the files of the directory \<open>dsdp\<close> when it exists, and the external solvers
  invoked so far, in order.
\<close>

record world =
  cwd :: "string set"
  dsdp :: "string set option"
  invoked :: "string list"

text \<open>
  An external solver is opaque: given its name, the model and the files of the working
  directory, it gives the current values of the data objects, the contents of the
  annotation slots and the files it leaves, and may fail. It changes nothing else
  of the model.
\<close>

type_synonym solver =
  "string \<Rightarrow> model \<Rightarrow> string set
     \<Rightarrow> error option \<times> (dref \<Rightarrow> real option) \<times> (string \<rightharpoonup> suffix) \<times> string set"

definition load_solution :: "(dref \<Rightarrow> real option) \<Rightarrow> (string \<rightharpoonup> suffix) \<Rightarrow> model
                                \<Rightarrow> model" where
  "load_solution vals sfx m =
     m\<lparr>comps := map (\<lambda>(c, cmp). (c, cmp\<lparr>data_value := (\<lambda>k. vals (c, k))\<rparr>)) (comps m),
       suffixes := sfx\<rparr>"

definition solve :: "solver \<Rightarrow> string \<Rightarrow> model \<times> world \<Rightarrow> error option \<times> model \<times> world" where
  "solve solver name mw =
     (case mw of (m, W) \<Rightarrow>
        (case solver name m (cwd W) of
           (e, vals, sfx, files) \<Rightarrow>
             (e, load_solution vals sfx m, W\<lparr>cwd := files, invoked := invoked W @ [name]\<rparr>)))"

text \<open>\<open>m.<dst>.update(m.<src>)\<close> on two suffixes of the model.\<close>

definition suffix_update :: "string \<Rightarrow> string \<Rightarrow> model \<Rightarrow> error option \<times> model" where
  "suffix_update dst src m =
     (case (suffixes m dst, suffixes m src) of
        (Some d, Some s) \<Rightarrow>
          (None, m\<lparr>suffixes := (suffixes m)(dst \<mapsto> d\<lparr>entries := entries d ++ entries s\<rparr>)\<rparr>)
      | _ \<Rightarrow> (Some AttributeError, m))"

text \<open>Lines 112 to 123: the baseline solves of the \<open>kaug\<close> strategy. \<open>m.write\<close>
  with symbolic solver labels leaves \<open>col_row.nl\<close>, \<open>col_row.col\<close> and \<open>col_row.row\<close>.\<close>

definition kaug_baseline :: "solver \<Rightarrow> model \<times> world \<Rightarrow> error option \<times> model \<times> world" where
  "kaug_baseline solver mw =
     (case solve solver ''ipopt'' mw of
        (Some e, m1, W1) \<Rightarrow> (Some e, m1, W1)
      | (None, m1, W1) \<Rightarrow>
         (case and_then (suffix_update ''ipopt_zL_in'' ''ipopt_zL_out'' m1)
                 (suffix_update ''ipopt_zU_in'' ''ipopt_zU_out'') of
            (Some e, m2) \<Rightarrow> (Some e, m2, W1)
          | (None, m2) \<Rightarrow>
             (case solve solver ''k_aug'' (m2, W1) of
                (Some e, m3, W3) \<Rightarrow> (Some e, m3, W3)
              | (None, m3, W3) \<Rightarrow>
                  (None, m3,
                   W3\<lparr>cwd := cwd W3 \<union> {''col_row.nl'', ''col_row.col'', ''col_row.row''}\<rparr>))))"

text \<open>
  \<open>os.makedirs("dsdp")\<close> with \<open>FileExistsError\<close> passed over, and
  \<open>shutil.move(f, "./dsdp/")\<close>, which raises an \<open>OSError\<close> when the file is not in
  the working directory, when the directory is missing, and when the directory
  already holds a file of that name.
\<close>

definition makedirs_dsdp :: "world \<Rightarrow> world" where
  "makedirs_dsdp W = (case dsdp W of None \<Rightarrow> W\<lparr>dsdp := Some {}\<rparr> | Some _ \<Rightarrow> W)"

definition shutil_move :: "string \<Rightarrow> world \<Rightarrow> error + world" where
  "shutil_move f W =
     (case dsdp W of
        None \<Rightarrow> Inl OSError
      | Some d \<Rightarrow>
          if f \<in> cwd W \<and> f \<notin> d
          then Inr (W\<lparr>cwd := cwd W - {f}, dsdp := Some (insert f d)\<rparr>)
          else Inl OSError)"

definition kaug_artifacts :: "string list" where
  "kaug_artifacts =
     [''dsdp_in_.in'', ''col_row.nl'', ''col_row.col'', ''col_row.row'', ''conorder.txt'',
      ''delta_p.out'', ''dot_out.out'', ''timings_dot_driver_dsdp.txt'',
      ''timings_k_aug_dsdp.txt'']"

text \<open>Lines 141 to 152: the moves inside one \<open>try\<close>; the first \<open>OSError\<close> ends the
  region and is passed over.\<close>

fun move_all :: "string list \<Rightarrow> world \<Rightarrow> world" where
  "move_all [] W = W"
| "move_all (f # fs) W =
     (case shutil_move f W of
        Inl e \<Rightarrow> W
      | Inr W' \<Rightarrow> move_all fs W')"

definition relocate_artifacts :: "world \<Rightarrow> world" where
  "relocate_artifacts W = move_all kaug_artifacts (makedirs_dsdp W)"

definition sensitivity_calculation ::
  "namer \<Rightarrow> solver \<Rightarrow> subtraction \<Rightarrow> string \<Rightarrow> model \<Rightarrow> cid list \<Rightarrow> perturbation list
     \<Rightarrow> bool \<Rightarrow> world \<Rightarrow> (error + model) \<times> world" where
  "sensitivity_calculation uniq solver fsub method inst paramList perturbList cloneModel W =
     (let sens = SensitivityInterface_init inst cloneModel in
      case setup_sensitivity uniq sens paramList of
        (Some e, sens1) \<Rightarrow> (Inl e, W)
      | (None, sens1) \<Rightarrow>
         (case (if method = ''kaug'' then kaug_baseline solver (model_instance sens1, W)
                else (None, model_instance sens1, W)) of
            (Some e, m, W1) \<Rightarrow> (Inl e, W1)
          | (None, m, W1) \<Rightarrow>
             (case perturb_parameters fsub (sens1\<lparr>model_instance := m\<rparr>) perturbList of
                (Some e, sens2) \<Rightarrow> (Inl e, W1)
              | (None, sens2) \<Rightarrow>
                 if method = ''sipopt''
                 then (case solve solver ''ipopt_sens'' (model_instance sens2, W1) of
                         (Some e, m3, W2) \<Rightarrow> (Inl e, W2)
                       | (None, m3, W2) \<Rightarrow> (Inr m3, W2))
                 else if method = ''kaug''
                 then (case solve solver ''dot_sens'' (model_instance sens2, W1) of
                         (Some e, m3, W2) \<Rightarrow> (Inl e, W2)
                       | (None, m3, W2) \<Rightarrow> (Inr m3, relocate_artifacts W2))
                 else (Inr (model_instance sens2), W1))))"

section \<open>Notions used to state the properties\<close>

text \<open>What the planner reads of a component, by its id.\<close>

definition ctype_of :: "store \<Rightarrow> cid \<Rightarrow> ctype option" where
  "ctype_of cs c = map_option ctype (map_of cs c)"

definition mutable_of :: "store \<Rightarrow> cid \<Rightarrow> bool" where
  "mutable_of cs c = (case map_of cs c of Some cmp \<Rightarrow> mutable cmp | None \<Rightarrow> False)"

definition items_of :: "store \<Rightarrow> cid \<Rightarrow> (key \<times> dref) list" where
  "items_of cs c = (case map_of cs c of Some cmp \<Rightarrow> generate_component_items c cmp | None \<Rightarrow> [])"

text \<open>
  The elements of a component, as the component has them: one for every member of
  its index set, or the component itself when it is scalar.
\<close>

definition elements_of :: "store \<Rightarrow> cid \<Rightarrow> key set" where
  "elements_of cs c =
     (case map_of cs c of
        None \<Rightarrow> {}
      | Some cmp \<Rightarrow> if is_indexed cmp then Idx ` set (index_set cmp) else {NotAnIndex})"

text \<open>\<open>instance.<name>[k]\<close> read back: the entry of a slot, if the slot and the entry exist.\<close>

definition suffix_entry :: "model \<Rightarrow> string \<Rightarrow> dref \<Rightarrow> real option" where
  "suffix_entry inst name k = (case suffixes inst name of None \<Rightarrow> None | Some s \<Rightarrow> entries s k)"

text \<open>An entry of the resolved list at which the planner raises, in a given store.\<close>

definition entry_fails :: "store \<Rightarrow> cid option \<Rightarrow> bool" where
  "entry_fails cs entry =
     (case entry of
        None \<Rightarrow> True
      | Some c \<Rightarrow>
         (case map_of cs c of
            None \<Rightarrow> True
          | Some cmp \<Rightarrow>
              (ctype cmp = Param \<and> (\<not> mutable cmp \<or> isl (initialize cmp)))
              \<or> (ctype cmp = Var
                  \<and> ((\<exists>(_, data) \<in> set (generate_component_items c cmp). \<not> fixed_of cs data)
                      \<or> isl (initialize cmp)))))"

text \<open>An expression that is a number once its named expressions are inlined.\<close>

fun constant_expr :: "expr \<Rightarrow> bool" where
  "constant_expr (Const c) = True"
| "constant_expr (NamedExpr n e) = constant_expr e"
| "constant_expr (ParamLeaf p) = False"
| "constant_expr (VarLeaf v) = False"
| "constant_expr (Sum a b) = False"
| "constant_expr (Diff a b) = False"
| "constant_expr (Prod a b) = False"
| "constant_expr (Neg a) = False"



text \<open>
  What the planner guarantees of a record \<open>(var, param, list_idx, comp_idx)\<close>, for the
  resolved list \<open>es\<close>, the store \<open>cs0\<close> the planner started from and a later store
  \<open>cs\<close>: the record belongs to an element of the designated component at
  \<open>list_idx\<close>, and that element has a value; for a designated parameter \<open>param\<close> is
  that element and \<open>var\<close> is the same element of a new variable with the same
  elements, holding its value; for a designated variable \<open>var\<close> is that element and
  \<open>param\<close> is the same element of a new mutable parameter with the same elements,
  holding its value.
\<close>

definition record_ok :: "store \<Rightarrow> cid option list \<Rightarrow> store \<Rightarrow> sens_record \<Rightarrow> bool" where
  "record_ok cs0 es cs r =
     (case r of (var, param, list_idx, comp_idx) \<Rightarrow>
        list_idx < length es
        \<and> (case es ! list_idx of
             None \<Rightarrow> False
           | Some c \<Rightarrow>
               comp_idx \<in> elements_of cs0 c
               \<and> value_of cs0 (c, comp_idx) \<noteq> None
               \<and> (if ctype_of cs0 c = Some Param
                  then param = (c, comp_idx) \<and> snd var = comp_idx
                       \<and> map_of cs0 (fst var) = None
                       \<and> ctype_of cs (fst var) = Some Var
                       \<and> elements_of cs (fst var) = elements_of cs0 c
                       \<and> value_of cs var = value_of cs0 (c, comp_idx)
                  else ctype_of cs0 c = Some Var
                       \<and> var = (c, comp_idx) \<and> snd param = comp_idx
                       \<and> map_of cs0 (fst param) = None
                       \<and> ctype_of cs (fst param) = Some Param
                       \<and> mutable_of cs (fst param)
                       \<and> elements_of cs (fst param) = elements_of cs0 c
                       \<and> value_of cs param = value_of cs0 (c, comp_idx))))"

section \<open>Concrete inputs\<close>

text \<open>
  A model with a scalar mutable parameter \<open>p = 5\<close> (id 0), a free variable \<open>x\<close> (id 1)
  and a variable \<open>y\<close> fixed at 2 (id 2), and the ranged constraint \<open>p \<le> x \<le> 10\<close>.
\<close>

definition p_comp :: component where
  "p_comp = \<lparr>ctype = Param, local_name = ''p'', mutable = True, is_indexed = False,
             index_set = [], data_value = (\<lambda>_. Some 5), data_fixed = (\<lambda>_. False)\<rparr>"

definition x_comp :: component where
  "x_comp = \<lparr>ctype = Var, local_name = ''x'', mutable = False, is_indexed = False,
             index_set = [], data_value = (\<lambda>_. Some 0), data_fixed = (\<lambda>_. False)\<rparr>"

definition y_comp :: component where
  "y_comp = \<lparr>ctype = Var, local_name = ''y'', mutable = False, is_indexed = False,
             index_set = [], data_value = (\<lambda>_. Some 2), data_fixed = (\<lambda>_. True)\<rparr>"

definition ranged_con :: constraint where
  "ranged_con = \<lparr>active = True, equality = False, lower = Some (ParamLeaf (0, NotAnIndex)),
                 body = VarLeaf (1, NotAnIndex), upper = Some (Const 10)\<rparr>"

definition model0 :: model where
  "model0 = \<lparr>comps = [(0, p_comp), (1, x_comp), (2, y_comp)], declared = [0, 1, 2],
             objectives = [],
             constraints = [ranged_con], sens_block = None, suffixes = Map.empty\<rparr>"

definition sens0 :: SensitivityInterface where
  "sens0 = SensitivityInterface_init model0 False"

definition namer0 :: namer where
  "namer0 used name = (if name \<in> set used then name @ ''_0'' else name)"

text \<open>A solver that succeeds and changes neither values, slots nor files.\<close>

definition solver0 :: solver where
  "solver0 name m files = (None, value_of (comps m), suffixes m, files)"

definition world0 :: world where
  "world0 = \<lparr>cwd = {''col_row.nl'', ''delta_p.out''}, dsdp = None, invoked = []\<rparr>"

text \<open>An assignment of values to the leaves: \<open>x = -5\<close>, everything else 0.\<close>

definition assignment0 :: "dref \<Rightarrow> real" where
  "assignment0 d = (if d = (1, NotAnIndex) then - 5 else 0)"


text \<open>
  A model with indexed components, worked on as a clone: a mutable parameter \<open>q\<close> over
  \<open>{1, 2}\<close> with \<open>q[1] = 3\<close>, \<open>q[2] = 4\<close> (id 0); a variable \<open>z\<close> over \<open>{1, 2}\<close> fixed at
  \<open>z[1] = 7\<close>, \<open>z[2] = 8\<close> (id 1); a variable \<open>w\<close> over \<open>{1, 2}\<close> whose second element is
  free (id 2); a scalar variable \<open>u\<close> that is fixed and has no value (id 3); a
  parameter \<open>r\<close> that is not mutable (id 4); and the constraint \<open>q[1] + w[2] = 0\<close>.
\<close>

definition q_comp :: component where
  "q_comp = \<lparr>ctype = Param, local_name = ''q'', mutable = True, is_indexed = True,
             index_set = [2, 1],
             data_value = (\<lambda>k. case k of
                                 Idx j \<Rightarrow> if j = 1 then Some 3 else if j = 2 then Some 4 else None
                               | NotAnIndex \<Rightarrow> None),
             data_fixed = (\<lambda>_. False)\<rparr>"

definition z_comp :: component where
  "z_comp = \<lparr>ctype = Var, local_name = ''z'', mutable = False, is_indexed = True,
             index_set = [1, 2],
             data_value = (\<lambda>k. case k of
                                 Idx j \<Rightarrow> if j = 1 then Some 7 else if j = 2 then Some 8 else None
                               | NotAnIndex \<Rightarrow> None),
             data_fixed = (\<lambda>k. case k of Idx j \<Rightarrow> j = 1 \<or> j = 2 | NotAnIndex \<Rightarrow> False)\<rparr>"

definition w_comp :: component where
  "w_comp = \<lparr>ctype = Var, local_name = ''w'', mutable = False, is_indexed = True,
             index_set = [1, 2],
             data_value = (\<lambda>k. case k of
                                 Idx j \<Rightarrow> if j = 1 \<or> j = 2 then Some 0 else None
                               | NotAnIndex \<Rightarrow> None),
             data_fixed = (\<lambda>k. case k of Idx j \<Rightarrow> j = 1 | NotAnIndex \<Rightarrow> False)\<rparr>"

definition u_comp :: component where
  "u_comp = \<lparr>ctype = Var, local_name = ''u'', mutable = False, is_indexed = False,
             index_set = [], data_value = (\<lambda>_. None), data_fixed = (\<lambda>_. True)\<rparr>"

definition r_comp :: component where
  "r_comp = \<lparr>ctype = Param, local_name = ''r'', mutable = False, is_indexed = False,
             index_set = [], data_value = (\<lambda>_. Some 1), data_fixed = (\<lambda>_. False)\<rparr>"

definition eq_con :: constraint where
  "eq_con = \<lparr>active = True, equality = True, lower = Some (Const 0),
             body = Sum (ParamLeaf (0, Idx 1)) (VarLeaf (2, Idx 2)), upper = Some (Const 0)\<rparr>"

definition model_indexed :: model where
  "model_indexed = \<lparr>comps = [(0, q_comp), (1, z_comp), (2, w_comp), (3, u_comp), (4, r_comp)],
                    declared = [0, 1, 2, 3, 4], objectives = [],
                    constraints = [eq_con], sens_block = None, suffixes = Map.empty\<rparr>"

definition sens_indexed :: SensitivityInterface where
  "sens_indexed = SensitivityInterface_init model_indexed True"
section \<open>What each phase leaves unchanged\<close>

lemma add_var_frame:
  "add_var uniq i c cmp d cs b = (cs', b') \<Longrightarrow>
     attrs b' = attrs b \<and> constList b' = constList b \<and> paramConst b' = paramConst b
     \<and> block_objectives b' = block_objectives b \<and> paramList_of b' = paramList_of b"
  by (auto simp: add_var_def Let_def)

lemma add_param_frame:
  "add_param uniq i c cmp d cs b = (cs', b') \<Longrightarrow>
     attrs b' = attrs b \<and> constList b' = constList b \<and> paramConst b' = paramConst b
     \<and> block_objectives b' = block_objectives b \<and> paramList_of b' = paramList_of b"
  by (auto simp: add_param_def Let_def)

lemma planner_frame:
  "planner uniq i es cs b = (e, cs', b') \<Longrightarrow>
     attrs b' = attrs b \<and> constList b' = constList b \<and> paramConst b' = paramConst b
     \<and> block_objectives b' = block_objectives b \<and> paramList_of b' = paramList_of b"
proof (induction es arbitrary: i cs b)
  case Nil
  then show ?case by simp
next
  case (Cons entry rest)
  show ?case
  proof (cases entry)
    case None
    with Cons.prems show ?thesis by simp
  next
    case (Some c)
    show ?thesis
    proof (cases "map_of cs c")
      case None
      with Some Cons.prems show ?thesis by simp
    next
      case (Some cmp)
      note cmp = \<open>entry = Some c\<close> Some
      consider (param) "ctype cmp = Param" | (var) "ctype cmp = Var"
        | (other) "ctype cmp \<noteq> Param" "ctype cmp \<noteq> Var" by blast
      then show ?thesis
      proof cases
        case param
        show ?thesis
        proof (cases "mutable cmp")
          case False
          with cmp param Cons.prems show ?thesis by simp
        next
          case True
          show ?thesis
          proof (cases "initialize cmp")
            case (Inl err)
            with cmp param True Cons.prems show ?thesis by simp
          next
            case (Inr d)
            obtain cs1 b1 where a: "add_var uniq i c cmp d cs b = (cs1, b1)"
              by (cases "add_var uniq i c cmp d cs b")
            with cmp param True Inr Cons.prems
            have "planner uniq (Suc i) rest cs1 b1 = (e, cs', b')" by simp
            from Cons.IH [OF this] add_var_frame [OF a] show ?thesis by simp
          qed
        qed
      next
        case var
        show ?thesis
        proof (cases "\<exists>(_, data) \<in> set (generate_component_items c cmp). \<not> fixed_of cs data")
          case True
          with cmp var Cons.prems show ?thesis by simp
        next
          case False
          note fixed = this
          show ?thesis
          proof (cases "initialize cmp")
            case (Inl err)
            with cmp var fixed Cons.prems show ?thesis by simp
          next
            case (Inr d)
            obtain cs1 b1 where a: "add_param uniq i c cmp d cs b = (cs1, b1)"
              by (cases "add_param uniq i c cmp d cs b")
            with cmp var fixed Inr Cons.prems
            have "planner uniq (Suc i) rest cs1 b1 = (e, cs', b')" by simp
            from Cons.IH [OF this] add_param_frame [OF a] show ?thesis by simp
          qed
        qed
      next
        case other
        with cmp Cons.prems have "planner uniq (Suc i) rest cs b = (e, cs', b')" by simp
        from Cons.IH [OF this] show ?thesis .
      qed
    qed
  qed
qed

lemma rewrite_objectives_frame:
  "rewrite_objectives uniq m objs b = (objs', b') \<Longrightarrow>
     attrs b' = attrs b \<and> sens_data_list b' = sens_data_list b \<and> paramList_of b' = paramList_of b
     \<and> decl b' = decl b \<and> constList b' = constList b \<and> paramConst b' = paramConst b"
proof (induction objs arbitrary: b objs' b')
  case Nil
  then show ?case by simp
next
  case (Cons obj objs)
  then show ?case
    by (fastforce simp: Let_def split: if_splits prod.splits)
qed

lemma rewrite_expressions_frame:
  "rewrite_expressions uniq pl inst b = (e, inst', b') \<Longrightarrow>
     comps inst' = comps inst \<and> suffixes inst' = suffixes inst \<and> sens_block inst' = sens_block inst
     \<and> sens_data_list b' = sens_data_list b \<and> paramList_of b' = paramList_of b
     \<and> paramConst b' = paramConst b
     \<and> attrs b' ''has_replaced_expressions'' = attrs b ''has_replaced_expressions''"
  by (auto simp: rewrite_expressions_def Let_def split: if_splits prod.splits option.splits
           dest!: rewrite_objectives_frame)

lemma set_suffix_frame:
  "set_suffix name k v inst = (e, inst') \<Longrightarrow>
     comps inst' = comps inst \<and> objectives inst' = objectives inst
     \<and> constraints inst' = constraints inst \<and> sens_block inst' = sens_block inst"
  by (auto simp: set_suffix_def split: option.splits)

lemma and_then_frame:
  assumes "and_then r f = (e, s')"
    and "P (snd r)"
    and "\<And>s e s'. P s \<Longrightarrow> f s = (e, s') \<Longrightarrow> P s'"
  shows "P s'"
  using assms by (cases r) (auto simp: and_then_def split: option.splits)

section \<open>An invariant rule for the planner loop\<close>

lemma planner_invariant:
  assumes "planner uniq i es cs b = (e, cs', b')"
    and "Q i cs b"
    and "\<And>j c cmp d cs b cs1 b1.
           \<lbrakk>Q j cs b; i \<le> j; j < i + length es; es ! (j - i) = Some c; map_of cs c = Some cmp;
            ctype cmp = Param; mutable cmp; initialize cmp = Inr d;
            add_var uniq j c cmp d cs b = (cs1, b1)\<rbrakk>
           \<Longrightarrow> Q (Suc j) cs1 b1"
    and "\<And>j c cmp d cs b cs1 b1.
           \<lbrakk>Q j cs b; i \<le> j; j < i + length es; es ! (j - i) = Some c; map_of cs c = Some cmp;
            ctype cmp = Var;
            \<not> (\<exists>(_, data) \<in> set (generate_component_items c cmp). \<not> fixed_of cs data);
            initialize cmp = Inr d;
            add_param uniq j c cmp d cs b = (cs1, b1)\<rbrakk>
           \<Longrightarrow> Q (Suc j) cs1 b1"
    and "\<And>j c cmp cs b.
           \<lbrakk>Q j cs b; i \<le> j; j < i + length es; es ! (j - i) = Some c; map_of cs c = Some cmp;
            ctype cmp \<noteq> Param; ctype cmp \<noteq> Var\<rbrakk>
           \<Longrightarrow> Q (Suc j) cs b"
  shows "\<exists>j. i \<le> j \<and> j \<le> i + length es \<and> Q j cs' b'
            \<and> (e = None \<longrightarrow> j = i + length es)
            \<and> (e \<noteq> None \<longrightarrow> j < i + length es \<and> entry_fails cs' (es ! (j - i)))"
  using assms
proof (induction es arbitrary: i cs b)
  case Nil
  then show ?case by auto
next
  case (Cons entry rest)
  note run = Cons.prems(1) and init = Cons.prems(2)
  note sv = Cons.prems(3) and sp = Cons.prems(4) and so = Cons.prems(5)
  have stop: "\<exists>j. i \<le> j \<and> j \<le> i + length (entry # rest) \<and> Q j cs' b'
            \<and> (e = None \<longrightarrow> j = i + length (entry # rest))
            \<and> (e \<noteq> None \<longrightarrow> j < i + length (entry # rest) \<and> entry_fails cs' ((entry # rest) ! (j - i)))"
    if "e \<noteq> None" "cs' = cs" "b' = b" "entry_fails cs entry"
    using that init by (intro exI [of _ i]) simp
  have continue: "\<exists>j. i \<le> j \<and> j \<le> i + length (entry # rest) \<and> Q j cs' b'
            \<and> (e = None \<longrightarrow> j = i + length (entry # rest))
            \<and> (e \<noteq> None \<longrightarrow> j < i + length (entry # rest) \<and> entry_fails cs' ((entry # rest) ! (j - i)))"
    if r: "planner uniq (Suc i) rest cs1 b1 = (e, cs', b')" and q: "Q (Suc i) cs1 b1" for cs1 b1
  proof -
    have "\<exists>j. Suc i \<le> j \<and> j \<le> Suc i + length rest \<and> Q j cs' b'
            \<and> (e = None \<longrightarrow> j = Suc i + length rest)
            \<and> (e \<noteq> None \<longrightarrow> j < Suc i + length rest \<and> entry_fails cs' (rest ! (j - Suc i)))"
    proof (rule Cons.IH [OF r q])
      fix j c cmp d cs b cs1 b1
      assume a: "Q j cs b" "Suc i \<le> j" "j < Suc i + length rest" "rest ! (j - Suc i) = Some c"
        "map_of cs c = Some cmp"
      from a(2) have d: "j - i = Suc (j - Suc i)" by arith
      from a have pos: "i \<le> j" "j < i + length (entry # rest)" "(entry # rest) ! (j - i) = Some c"
        by (auto simp: d)
      { assume "ctype cmp = Param" "mutable cmp" "initialize cmp = Inr d"
          "add_var uniq j c cmp d cs b = (cs1, b1)"
        with a pos show "Q (Suc j) cs1 b1" by (intro sv [of j cs b c cmp d]) auto }
      { assume "ctype cmp = Var"
          "\<not> (\<exists>(_, data) \<in> set (generate_component_items c cmp). \<not> fixed_of cs data)"
          "initialize cmp = Inr d"
          "add_param uniq j c cmp d cs b = (cs1, b1)"
        with a pos show "Q (Suc j) cs1 b1" by (intro sp [of j cs b c cmp d]) auto }
      { assume "ctype cmp \<noteq> Param" "ctype cmp \<noteq> Var"
        with a pos show "Q (Suc j) cs b" by (intro so [of j cs b c cmp]) auto }
    qed
    then obtain j where j: "Suc i \<le> j" "j \<le> Suc i + length rest" "Q j cs' b'"
      "e = None \<longrightarrow> j = Suc i + length rest"
      "e \<noteq> None \<longrightarrow> j < Suc i + length rest \<and> entry_fails cs' (rest ! (j - Suc i))"
      by blast
    from j(1) have "j - i = Suc (j - Suc i)" by arith
    then have "(entry # rest) ! (j - i) = rest ! (j - Suc i)"
      by simp
    with j show ?thesis by (intro exI [of _ j]) auto
  qed
  show ?case
  proof (cases entry)
    case None
    with run show ?thesis by (intro stop) (auto simp: entry_fails_def)
  next
    case (Some c)
    note entry = this
    show ?thesis
    proof (cases "map_of cs c")
      case None
      with entry run show ?thesis by (intro stop) (auto simp: entry_fails_def)
    next
      case (Some cmp)
      note cmp = entry Some
      have at: "i \<le> i" "i < i + length (entry # rest)" "(entry # rest) ! (i - i) = Some c"
        using entry by auto
      consider (param) "ctype cmp = Param" | (var) "ctype cmp = Var"
        | (other) "ctype cmp \<noteq> Param" "ctype cmp \<noteq> Var" by blast
      then show ?thesis
      proof cases
        case param
        show ?thesis
        proof (cases "mutable cmp")
          case False
          with cmp param run show ?thesis by (intro stop) (auto simp: entry_fails_def)
        next
          case True
          show ?thesis
          proof (cases "initialize cmp")
            case (Inl err)
            with cmp param True run show ?thesis by (intro stop) (auto simp: entry_fails_def)
          next
            case (Inr d)
            obtain cs1 b1 where a: "add_var uniq i c cmp d cs b = (cs1, b1)"
              by (cases "add_var uniq i c cmp d cs b")
            with cmp param True Inr run
            have r: "planner uniq (Suc i) rest cs1 b1 = (e, cs', b')" by simp
            have "Q (Suc i) cs1 b1" using init at cmp(2) param True Inr a by (rule sv)
            with r show ?thesis by (rule continue)
          qed
        qed
      next
        case var
        show ?thesis
        proof (cases "\<exists>(_, data) \<in> set (generate_component_items c cmp). \<not> fixed_of cs data")
          case True
          with cmp var run show ?thesis by (intro stop) (auto simp: entry_fails_def)
        next
          case False
          note fixed = this
          show ?thesis
          proof (cases "initialize cmp")
            case (Inl err)
            with cmp var fixed run show ?thesis by (intro stop) (auto simp: entry_fails_def)
          next
            case (Inr d)
            obtain cs1 b1 where a: "add_param uniq i c cmp d cs b = (cs1, b1)"
              by (cases "add_param uniq i c cmp d cs b")
            with cmp var fixed Inr run
            have r: "planner uniq (Suc i) rest cs1 b1 = (e, cs', b')" by simp
            have "Q (Suc i) cs1 b1" using init at cmp(2) var fixed Inr a by (rule sp)
            with r show ?thesis by (rule continue)
          qed
        qed
      next
        case other
        with cmp run have r: "planner uniq (Suc i) rest cs b = (e, cs', b')" by simp
        have "Q (Suc i) cs b" using init at cmp(2) other by (rule so)
        with r show ?thesis by (rule continue)
      qed
    qed
  qed
qed

section \<open>The component store\<close>

lemma fresh_cid_bound: "(c, x) \<in> set cs \<Longrightarrow> c < fresh_cid cs"
  by (induction cs) (auto simp: fresh_cid_def)

lemma fresh_cid_fresh: "map_of cs (fresh_cid cs) = None"
  using fresh_cid_bound [of "fresh_cid cs" _ cs]
  by (auto simp: map_of_eq_None_iff)

lemma map_of_append_old: "map_of cs c = Some x \<Longrightarrow> map_of (cs @ ys) c = Some x"
  by (simp add: map_add_Some_iff)

lemma map_of_append_new: "map_of cs c = None \<Longrightarrow> map_of (cs @ [(c, x)]) c = Some x"
  by (simp add: map_add_Some_iff)

lemma map_of_set_fixed:
  "map_of (set_fixed f d cs) c =
     map_option (\<lambda>cmp. if c = fst d then cmp\<lparr>data_fixed := (data_fixed cmp)(snd d := f)\<rparr> else cmp)
       (map_of cs c)"
  by (induction cs) (auto simp: set_fixed_def)

lemma value_of_set_fixed [simp]: "value_of (set_fixed f d cs) v = value_of cs v"
  by (cases "map_of cs (fst v)") (simp_all add: value_of_def map_of_set_fixed)

lemma ctype_of_set_fixed [simp]: "ctype_of (set_fixed f d cs) c = ctype_of cs c"
  by (cases "map_of cs c") (simp_all add: ctype_of_def map_of_set_fixed)

lemma mutable_of_set_fixed [simp]: "mutable_of (set_fixed f d cs) c = mutable_of cs c"
  by (cases "map_of cs c") (simp_all add: mutable_of_def map_of_set_fixed)

lemma items_of_set_fixed [simp]: "items_of (set_fixed f d cs) c = items_of cs c"
  by (cases "map_of cs c") (simp_all add: items_of_def map_of_set_fixed generate_component_items_def)

lemma elements_of_set_fixed [simp]: "elements_of (set_fixed f d cs) c = elements_of cs c"
  by (cases "map_of cs c") (simp_all add: elements_of_def map_of_set_fixed)

lemma dom_set_fixed [simp]: "(map_of (set_fixed f d cs) c = None) = (map_of cs c = None)"
  by (simp add: map_of_set_fixed)

lemma fixed_of_set_fixed:
  "fixed_of (set_fixed f d cs) v =
     (if v = d \<and> map_of cs (fst d) \<noteq> None then f else fixed_of cs v)"
  by (cases v; cases d) (auto simp: fixed_of_def map_of_set_fixed split: option.splits)


lemma fold_set_fixed_value:
  "value_of (fold (\<lambda>r. set_fixed f (fst r)) sdl cs) v = value_of cs v"
  by (induction sdl arbitrary: cs) auto

lemma fold_set_fixed_ctype:
  "ctype_of (fold (\<lambda>r. set_fixed f (fst r)) sdl cs) c = ctype_of cs c"
  by (induction sdl arbitrary: cs) auto

lemma fold_set_fixed_mutable:
  "mutable_of (fold (\<lambda>r. set_fixed f (fst r)) sdl cs) c = mutable_of cs c"
  by (induction sdl arbitrary: cs) auto

lemma fold_set_fixed_items:
  "items_of (fold (\<lambda>r. set_fixed f (fst r)) sdl cs) c = items_of cs c"
  by (induction sdl arbitrary: cs) auto

lemma fold_set_fixed_elements:
  "elements_of (fold (\<lambda>r. set_fixed f (fst r)) sdl cs) c = elements_of cs c"
  by (induction sdl arbitrary: cs) auto

lemma fold_set_fixed_dom:
  "(map_of (fold (\<lambda>r. set_fixed f (fst r)) sdl cs) c = None) = (map_of cs c = None)"
  by (induction sdl arbitrary: cs) auto

lemma fold_set_fixed_fixed:
  "fixed_of (fold (\<lambda>r. set_fixed f (fst r)) sdl cs) v =
     (if v \<in> fst ` set sdl \<and> map_of cs (fst v) \<noteq> None then f else fixed_of cs v)"
proof (induction sdl arbitrary: cs)
  case Nil
  then show ?case by simp
next
  case (Cons r sdl)
  show ?case
    by (auto simp: Cons.IH fixed_of_set_fixed)
qed

lemma unfix_all_fold: "unfix_all sdl cs = fold (\<lambda>r. set_fixed False (fst r)) sdl cs"
  unfolding unfix_all_def
  by (rule arg_cong [where f = "\<lambda>g. fold g sdl cs"]) (auto simp: fun_eq_iff)

lemma refix_fold: "refix sdl cs = fold (\<lambda>r. set_fixed True (fst r)) sdl cs"
  unfolding refix_def
  by (rule arg_cong [where f = "\<lambda>g. fold g sdl cs"]) (auto simp: fun_eq_iff)

lemma value_of_unfix_all [simp]: "value_of (unfix_all sdl cs) v = value_of cs v"
  by (simp add: unfix_all_fold fold_set_fixed_value)

lemma ctype_of_unfix_all [simp]: "ctype_of (unfix_all sdl cs) c = ctype_of cs c"
  by (simp add: unfix_all_fold fold_set_fixed_ctype)

lemma mutable_of_unfix_all [simp]: "mutable_of (unfix_all sdl cs) c = mutable_of cs c"
  by (simp add: unfix_all_fold fold_set_fixed_mutable)

lemma items_of_unfix_all [simp]: "items_of (unfix_all sdl cs) c = items_of cs c"
  by (simp add: unfix_all_fold fold_set_fixed_items)

lemma elements_of_unfix_all [simp]: "elements_of (unfix_all sdl cs) c = elements_of cs c"
  by (simp add: unfix_all_fold fold_set_fixed_elements)

lemma elements_of_refix [simp]: "elements_of (refix sdl cs) c = elements_of cs c"
  by (simp add: refix_fold fold_set_fixed_elements)

lemma dom_unfix_all [simp]: "(map_of (unfix_all sdl cs) c = None) = (map_of cs c = None)"
  by (simp add: unfix_all_fold fold_set_fixed_dom)

lemma value_of_refix [simp]: "value_of (refix sdl cs) v = value_of cs v"
  by (simp add: refix_fold fold_set_fixed_value)

lemma ctype_of_refix [simp]: "ctype_of (refix sdl cs) c = ctype_of cs c"
  by (simp add: refix_fold fold_set_fixed_ctype)

lemma mutable_of_refix [simp]: "mutable_of (refix sdl cs) c = mutable_of cs c"
  by (simp add: refix_fold fold_set_fixed_mutable)

lemma items_of_refix [simp]: "items_of (refix sdl cs) c = items_of cs c"
  by (simp add: refix_fold fold_set_fixed_items)

lemma dom_refix [simp]: "(map_of (refix sdl cs) c = None) = (map_of cs c = None)"
  by (simp add: refix_fold fold_set_fixed_dom)

lemma fixed_of_unfix_all:
  "fixed_of (unfix_all sdl cs) v =
     (if v \<in> fst ` set sdl \<and> map_of cs (fst v) \<noteq> None then False else fixed_of cs v)"
  by (simp only: unfix_all_fold fold_set_fixed_fixed)

lemma setup_sensitivity_success:
  assumes "setup_sensitivity uniq self pl0 = (None, self')"
  obtains inst1 cs b inst2 b2 inst3 where
    "remove_existing_block (model_instance self) = Inr inst1"
    "planner uniq 0 (resolve_paramList self pl0) (comps inst1)
       (new_block (resolve_paramList self pl0)) = (None, cs, b)"
    "rewrite_expressions uniq (resolve_paramList self pl0)
       (inst1\<lparr>comps := unfix_all (sens_data_list b) cs\<rparr>) b = (None, inst2, b2)"
    "pin_and_annotate inst2 b2 = (None, inst3)"
    "self' = self\<lparr>has_block := True, model_instance := inst3\<rparr>"
  using assms
  by (auto simp: setup_sensitivity_def Let_def split: sum.splits prod.splits option.splits)

lemma stamp_frame:
  "stamp pc i rs inst = (e, inst') \<Longrightarrow>
     comps inst' = comps inst \<and> objectives inst' = objectives inst
     \<and> constraints inst' = constraints inst \<and> sens_block inst' = sens_block inst"
proof (induction rs arbitrary: i inst)
  case Nil
  then show ?case by simp
next
  case (Cons r rs)
  obtain var p li k where r: "r = (var, p, li, k)" by (cases r)
  let ?P = "\<lambda>m. comps m = comps inst \<and> objectives m = objectives inst
     \<and> constraints m = constraints inst \<and> sens_block m = sens_block inst"
  obtain e1 inst1 where s: "and_then (and_then (and_then
                (set_suffix ''sens_state_0'' var (real (i + 1)) inst)
                (set_suffix ''sens_state_1'' var (real (i + 1))))
                (set_suffix ''sens_init_constr'' (pc, Idx (i + 1)) (real (i + 1))))
                (set_suffix ''dcdp'' (pc, Idx (i + 1)) (real (i + 1))) = (e1, inst1)"
    by (cases "and_then (and_then (and_then
                (set_suffix ''sens_state_0'' var (real (i + 1)) inst)
                (set_suffix ''sens_state_1'' var (real (i + 1))))
                (set_suffix ''sens_init_constr'' (pc, Idx (i + 1)) (real (i + 1))))
                (set_suffix ''dcdp'' (pc, Idx (i + 1)) (real (i + 1)))")
  have p1: "?P inst1"
    using s
    by (auto simp: and_then_def split: prod.splits option.splits dest!: set_suffix_frame)
  show ?case
  proof (cases e1)
    case None
    with s r Cons.prems have "stamp pc (Suc i) rs inst1 = (e, inst')" by (simp add: Let_def)
    from Cons.IH [OF this] p1 show ?thesis by simp
  next
    case (Some a)
    with s r Cons.prems have "inst' = inst1" by (simp add: Let_def)
    with p1 show ?thesis by simp
  qed
qed

lemma pin_and_annotate_frame:
  assumes "pin_and_annotate inst b = (e, inst')"
  shows "sens_block inst' = Some (b\<lparr>paramConst := Some (fresh_cid (comps inst),
                                        map pinning_constraint (sens_data_list b))\<rparr>)"
    and "\<exists>clist. comps inst' = comps inst @ [(fresh_cid (comps inst), clist)] \<and> ctype clist = Constraint
           \<and> data_fixed clist = (\<lambda>_. False)"
    and "objectives inst' = objectives inst" and "constraints inst' = constraints inst"
  using assms
  by (auto simp: pin_and_annotate_def add_paramConst_def Let_def dest!: stamp_frame)

section \<open>Calling setup again\<close>

lemma remove_existing_block_frame:
  assumes "remove_existing_block inst = Inr inst1"
  shows "objectives inst1 = objectives inst" and "constraints inst1 = constraints inst"
    and "suffixes inst1 = suffixes inst" and "sens_block inst1 = None"
    and "ctype_of (comps inst1) c = ctype_of (comps inst) c"
    and "value_of (comps inst1) v = value_of (comps inst) v"
    and "mutable_of (comps inst1) c = mutable_of (comps inst) c"
    and "items_of (comps inst1) c = items_of (comps inst) c"
    and "(map_of (comps inst1) c = None) = (map_of (comps inst) c = None)"
    and "sens_block inst = None \<Longrightarrow> inst1 = inst"
    and "elements_of (comps inst1) c = elements_of (comps inst) c"
  using assms
  by (auto simp: remove_existing_block_def split: option.splits if_splits)

lemma planner_store_grows:
  assumes "planner uniq i es cs b = (e, cs', b')" and "map_of cs c = Some cmp"
  shows "map_of cs' c = Some cmp"
proof -
  have "\<exists>j. i \<le> j \<and> j \<le> i + length es \<and> map_of cs' c = Some cmp
            \<and> (e = None \<longrightarrow> j = i + length es)
            \<and> (e \<noteq> None \<longrightarrow> j < i + length es \<and> entry_fails cs' (es ! (j - i)))"
    by (rule planner_invariant [where Q = "\<lambda>j cs b. map_of cs c = Some cmp", OF assms])
       (auto simp: add_var_def add_param_def Let_def map_add_Some_iff)
  then show ?thesis by blast
qed

lemma new_block_simps [simp]:
  "attrs (new_block pl) ''has_replaced_expressions'' = None"
  "attrs (new_block pl) ''_has_replaced_expressions'' = Some False"
  "sens_data_list (new_block pl) = []" "paramList_of (new_block pl) = pl"
  "decl (new_block pl) = []" "block_objectives (new_block pl) = []"
  "constList (new_block pl) = None" "paramConst (new_block pl) = None"
  by (simp_all add: new_block_def)

lemma setup_block_attrs:
  assumes "setup_sensitivity uniq self pl0 = (None, self')"
  shows "\<exists>b. sens_block (model_instance self') = Some b
            \<and> attrs b ''has_replaced_expressions'' = None
            \<and> paramList_of b = resolve_paramList self pl0
            \<and> paramConst b \<noteq> None"
    and "has_block self'"
proof -
  from assms obtain inst1 cs b inst2 b2 inst3 where
    pl: "planner uniq 0 (resolve_paramList self pl0) (comps inst1)
       (new_block (resolve_paramList self pl0)) = (None, cs, b)"
    and rw: "rewrite_expressions uniq (resolve_paramList self pl0)
       (inst1\<lparr>comps := unfix_all (sens_data_list b) cs\<rparr>) b = (None, inst2, b2)"
    and pa: "pin_and_annotate inst2 b2 = (None, inst3)"
    and s: "self' = self\<lparr>has_block := True, model_instance := inst3\<rparr>"
    by (rule setup_sensitivity_success)
  from planner_frame [OF pl] rewrite_expressions_frame [OF rw] pin_and_annotate_frame(1) [OF pa] s
  show "\<exists>b. sens_block (model_instance self') = Some b
            \<and> attrs b ''has_replaced_expressions'' = None
            \<and> paramList_of b = resolve_paramList self pl0
            \<and> paramConst b \<noteq> None"
    by simp
  from s show "has_block self'" by simp
qed

lemma existing_block_refused:
  assumes "sens_block (model_instance self) = Some b"
    and "attrs b ''has_replaced_expressions'' = None"
  shows "setup_sensitivity uniq self pl0 = (Some RuntimeError, self)"
  using assms by (simp add: setup_sensitivity_def remove_existing_block_def hasattr_def)

text \<open>
  C5. Once a setup has succeeded and has replaced expressions (the block's flag
  \<open>_has_replaced_expressions\<close> is true), every further call of \<open>setup_sensitivity\<close> on
  the interface, with any list and any naming, raises \<open>RuntimeError\<close> and leaves the
  interface, its model and the block as they are.
\<close>

theorem rebuild_after_substitution_refused:
  assumes "setup_sensitivity uniq self paramList = (None, self1)"
    and "\<exists>b. sens_block (model_instance self1) = Some b
             \<and> attrs b ''_has_replaced_expressions'' = Some True"
  shows "setup_sensitivity uniq' self1 paramList' = (Some RuntimeError, self1)"
proof -
  from setup_block_attrs(1) [OF assms(1)] obtain b where
    "sens_block (model_instance self1) = Some b" "attrs b ''has_replaced_expressions'' = None"
    by blast
  then show ?thesis by (rule existing_block_refused)
qed

theorem rebuild_after_substitution_refused_witness:
  "setup_sensitivity namer0 sens0 [0] = (None, snd (setup_sensitivity namer0 sens0 [0]))
   \<and> (\<exists>b. sens_block (model_instance (snd (setup_sensitivity namer0 sens0 [0]))) = Some b
           \<and> attrs b ''_has_replaced_expressions'' = Some True)
   \<and> setup_sensitivity namer0 (snd (setup_sensitivity namer0 sens0 [0])) [1]
       = (Some RuntimeError, snd (setup_sensitivity namer0 sens0 [0]))"
proof -
  have "fst (setup_sensitivity namer0 sens0 [0]) = None" by code_simp
  then have a: "setup_sensitivity namer0 sens0 [0] = (None, snd (setup_sensitivity namer0 sens0 [0]))"
    by (simp add: prod_eq_iff)
  have "map_option (\<lambda>b. attrs b ''_has_replaced_expressions'')
          (sens_block (model_instance (snd (setup_sensitivity namer0 sens0 [0])))) = Some (Some True)"
    by code_simp
  then have b: "\<exists>b. sens_block (model_instance (snd (setup_sensitivity namer0 sens0 [0]))) = Some b
           \<and> attrs b ''_has_replaced_expressions'' = Some True"
    by auto
  from rebuild_after_substitution_refused [OF a b] a b show ?thesis by blast
qed

text \<open>
  C2, evaluated. The variable \<open>y\<close> of \<open>model0\<close> is fixed; designating it succeeds and
  replaces no expression (the flag is false). A second call on the same interface
  raises \<open>RuntimeError\<close>: the block is not torn down and rebuilt.
\<close>

theorem second_setup_without_substitution_raises:
  "fst (setup_sensitivity namer0 sens0 [2]) = None
   \<and> map_option (\<lambda>b. attrs b ''_has_replaced_expressions'')
        (sens_block (model_instance (snd (setup_sensitivity namer0 sens0 [2])))) = Some (Some False)
   \<and> fst (setup_sensitivity namer0 (snd (setup_sensitivity namer0 sens0 [2])) [2])
        = Some RuntimeError"
  by code_simp

section \<open>Designated variables only\<close>

lemma reference_Some:
  "reference cs c = Some c' \<Longrightarrow> c' = c \<and> map_of cs c \<noteq> None"
  by (auto simp: reference_def split: option.splits)


lemma find_component_on_Some:
  "find_component_on inst c = Some c' \<Longrightarrow> c' = c \<and> map_of (comps inst) c \<noteq> None"
  by (auto simp: find_component_on_def dest: reference_Some split: if_splits)


lemma length_resolve_paramList [simp]:
  "length (resolve_paramList self pl) = length pl"
  by (simp add: resolve_paramList_def)

lemma resolve_paramList_nth:
  assumes "i < length pl" and "resolve_paramList self pl ! i = Some c"
  shows "c = pl ! i" and "map_of (comps (model_instance self)) c \<noteq> None"
  using assms
  by (auto simp: resolve_paramList_def dest: reference_Some find_component_on_Some
           split: if_splits)

lemma resolve_paramList_mem:
  assumes "Some c \<in> set (resolve_paramList self pl)"
  shows "c \<in> set pl" and "map_of (comps (model_instance self)) c \<noteq> None"
proof -
  from assms obtain i where i: "i < length pl" "resolve_paramList self pl ! i = Some c"
    by (auto simp: in_set_conv_nth)
  from resolve_paramList_nth [OF i] i(1) show "c \<in> set pl"
    and "map_of (comps (model_instance self)) c \<noteq> None" by simp_all
qed


lemma ctype_of_Some_dom: "ctype_of cs c = Some t \<Longrightarrow> map_of cs c \<noteq> None"
  by (auto simp: ctype_of_def)

lemma planner_ctype_grows:
  assumes "planner uniq i es cs b = (e, cs', b')" and "ctype_of cs c = Some t"
  shows "ctype_of cs' c = Some t"
proof -
  from assms(2) obtain cmp where "map_of cs c = Some cmp" "ctype cmp = t"
    by (auto simp: ctype_of_def)
  with planner_store_grows [OF assms(1)] show ?thesis by (simp add: ctype_of_def)
qed

lemma planner_no_objectives:
  "planner uniq i es cs b = (e, cs', b') \<Longrightarrow> block_objectives b' = block_objectives b"
  by (drule planner_frame) simp

lemma setup_sensitivity_cases:
  assumes "setup_sensitivity uniq self pl0 = (e, self')"
  obtains
    (refused) err where "remove_existing_block (model_instance self) = Inl err"
      "e = Some err" "self' = self"
  | (rejected) inst1 err cs b where "remove_existing_block (model_instance self) = Inr inst1"
      "planner uniq 0 (resolve_paramList self pl0) (comps inst1)
         (new_block (resolve_paramList self pl0)) = (Some err, cs, b)"
      "e = Some err"
      "self' = self\<lparr>has_block := True,
                     model_instance := inst1\<lparr>comps := cs, sens_block := Some b\<rparr>\<rparr>"
  | (unwritable) inst1 cs b err inst2 b2 where
      "remove_existing_block (model_instance self) = Inr inst1"
      "planner uniq 0 (resolve_paramList self pl0) (comps inst1)
         (new_block (resolve_paramList self pl0)) = (None, cs, b)"
      "rewrite_expressions uniq (resolve_paramList self pl0)
         (inst1\<lparr>comps := unfix_all (sens_data_list b) cs\<rparr>) b = (Some err, inst2, b2)"
      "e = Some err"
      "self' = self\<lparr>has_block := True, model_instance := inst2\<lparr>sens_block := Some b2\<rparr>\<rparr>"
  | (annotated) inst1 cs b inst2 b2 inst3 where
      "remove_existing_block (model_instance self) = Inr inst1"
      "planner uniq 0 (resolve_paramList self pl0) (comps inst1)
         (new_block (resolve_paramList self pl0)) = (None, cs, b)"
      "rewrite_expressions uniq (resolve_paramList self pl0)
         (inst1\<lparr>comps := unfix_all (sens_data_list b) cs\<rparr>) b = (None, inst2, b2)"
      "pin_and_annotate inst2 b2 = (e, inst3)"
      "self' = self\<lparr>has_block := True, model_instance := inst3\<rparr>"
  using assms
  by (auto simp: setup_sensitivity_def Let_def split: sum.splits prod.splits option.splits)

lemma no_param_no_substitution:
  assumes all_var: "\<forall>c \<in> set paramList. ctype_of (comps (model_instance self)) c \<noteq> Some Param"
    and re: "remove_existing_block (model_instance self) = Inr inst1"
    and pl: "planner uniq 0 (resolve_paramList self paramList) (comps inst1) b0 = (None, cs, b)"
  shows "variableSubMap (unfix_all sdl cs) (resolve_paramList self paramList) sdl' = []"
proof -
  have "entry_ctype (unfix_all sdl cs) (resolve_paramList self paramList) li \<noteq> Some Param"
    for li
  proof (cases "li < length paramList")
    case False
    then show ?thesis by (simp add: entry_ctype_def)
  next
    case True
    show ?thesis
    proof (cases "resolve_paramList self paramList ! li")
      case None
      with True show ?thesis by (simp add: entry_ctype_def)
    next
      case (Some c)
      from resolve_paramList_nth [OF True Some]
      have c: "c = paramList ! li" "map_of (comps (model_instance self)) c \<noteq> None" .
      with True all_var have "ctype_of (comps (model_instance self)) c \<noteq> Some Param" by simp
      with c(2) obtain t where t: "ctype_of (comps (model_instance self)) c = Some t" "t \<noteq> Param"
        by (auto simp: ctype_of_def)
      from t(1) have "ctype_of (comps inst1) c = Some t"
        by (simp add: remove_existing_block_frame(5) [OF re])
      then have "ctype_of cs c = Some t" by (rule planner_ctype_grows [OF pl])
      with t(2) Some True show ?thesis
        by (simp add: entry_ctype_def ctype_of_def [symmetric])
    qed
  qed
  then show ?thesis by (auto simp: variableSubMap_def filter_empty_conv)
qed

text \<open>
  C7. When every entry of the designated list is a variable of the model, a call of
  \<open>setup_sensitivity\<close> rewrites no expression, whether it returns or raises: the
  objectives and constraints of the model are as they were (none deactivated), and
  either the call raised at the existing block and changed nothing, or the block
  it built holds no cloned objective and no shadow constraint list, and its flag
  is false.
\<close>

theorem variables_only_no_rewriting:
  assumes "\<forall>c \<in> set paramList. ctype_of (comps (model_instance self)) c = Some Var"
  shows "objectives (model_instance (snd (setup_sensitivity uniq self paramList)))
           = objectives (model_instance self)
       \<and> constraints (model_instance (snd (setup_sensitivity uniq self paramList)))
           = constraints (model_instance self)
       \<and> (snd (setup_sensitivity uniq self paramList) = self
          \<or> (\<exists>b. sens_block (model_instance (snd (setup_sensitivity uniq self paramList))) = Some b
                  \<and> block_objectives b = [] \<and> constList b = None
                  \<and> attrs b ''_has_replaced_expressions'' = Some False))"
proof -
  let ?inst = "model_instance self"
  from assms have novar: "\<forall>c \<in> set paramList. ctype_of (comps ?inst) c \<noteq> Some Param"
    by simp
  obtain e self' where r: "setup_sensitivity uniq self paramList = (e, self')"
    by (cases "setup_sensitivity uniq self paramList")
  have "objectives (model_instance self') = objectives ?inst
       \<and> constraints (model_instance self') = constraints ?inst
       \<and> (self' = self
          \<or> (\<exists>b. sens_block (model_instance self') = Some b
                  \<and> block_objectives b = [] \<and> constList b = None
                  \<and> attrs b ''_has_replaced_expressions'' = Some False))"
    using r
  proof (cases rule: setup_sensitivity_cases)
    case (refused err)
    then show ?thesis by simp
  next
    case (rejected inst1 err cs b)
    from planner_frame [OF rejected(2)] rejected(4) remove_existing_block_frame(1,2) [OF rejected(1)]
    show ?thesis by simp
  next
    case (unwritable inst1 cs b err inst2 b2)
    from no_param_no_substitution [OF novar unwritable(1,2)] unwritable(3)
    show ?thesis by (simp add: rewrite_expressions_def)
  next
    case (annotated inst1 cs b inst2 b2 inst3)
    from no_param_no_substitution [OF novar annotated(1,2)] annotated(3)
    have same: "inst2 = inst1\<lparr>comps := unfix_all (sens_data_list b) cs\<rparr>" "b2 = b"
      by (auto simp: rewrite_expressions_def)
    from planner_frame [OF annotated(2)] have fb: "block_objectives b = []" "constList b = None"
      "attrs b ''_has_replaced_expressions'' = Some False"
      by simp_all
    from pin_and_annotate_frame [OF annotated(4)] same fb annotated(5)
      remove_existing_block_frame(1,2) [OF annotated(1)]
    show ?thesis by simp
  qed
  with r show ?thesis by simp
qed

theorem variables_only_no_rewriting_witness:
  "ctype_of (comps (model_instance sens0)) 2 = Some Var
   \<and> constraints (model_instance (snd (setup_sensitivity namer0 sens0 [2]))) = [ranged_con]
   \<and> (\<exists>b. sens_block (model_instance (snd (setup_sensitivity namer0 sens0 [2]))) = Some b
           \<and> constList b = None \<and> attrs b ''_has_replaced_expressions'' = Some False)"
proof -
  have a: "\<forall>c \<in> set [2]. ctype_of (comps (model_instance sens0)) c = Some Var"
    by (simp add: sens0_def SensitivityInterface_init_def model0_def ctype_of_def y_comp_def)
  have c: "constraints (model_instance sens0) = [ranged_con]" "sens_block (model_instance sens0) = None"
    by (simp_all add: sens0_def SensitivityInterface_init_def model0_def)
  have "has_block (snd (setup_sensitivity namer0 sens0 [2]))" by code_simp
  moreover have "\<not> has_block sens0" by (simp add: sens0_def SensitivityInterface_init_def)
  ultimately have d: "snd (setup_sensitivity namer0 sens0 [2]) \<noteq> sens0" by auto
  from variables_only_no_rewriting [OF a, of namer0] a c d show ?thesis by auto
qed

section \<open>Steps that cannot raise\<close>

lemma set_suffix_Some:
  "suffixes inst name = Some s \<Longrightarrow>
     set_suffix name k v inst
       = (None, inst\<lparr>suffixes := (suffixes inst)(name \<mapsto> s\<lparr>entries := (entries s)(k \<mapsto> v)\<rparr>)\<rparr>)"
  by (simp add: set_suffix_def)



lemma set_suffix_entry:
  "set_suffix name k v inst = (None, inst') \<Longrightarrow>
     suffix_entry inst' n k' = (if n = name \<and> k' = k then Some v else suffix_entry inst n k')"
  by (auto simp: set_suffix_def suffix_entry_def split: option.splits if_splits)

lemma and_then_None:
  "and_then r f = (None, s') \<Longrightarrow> \<exists>s. r = (None, s) \<and> f s = (None, s')"
  by (cases r) (auto simp: and_then_def split: option.splits)








lemma is_numeric_constant_dfs [simp]:
  "is_numeric_constant (dfs_postorder_stack m e) = constant_expr e"
  by (induction e) (simp_all split: option.splits)




section \<open>Validation of the designated components\<close>

lemma items_fst:
  "(k, d) \<in> set (generate_component_items c cmp) \<Longrightarrow> d = (c, k)"
  by (auto simp: generate_component_items_def split: if_splits)

lemma fixed_of_lookup: "map_of cs c = Some cmp \<Longrightarrow> fixed_of cs (c, k) = data_fixed cmp k"
  by (simp add: fixed_of_def)

lemma items_fixed_cong:
  assumes m: "map_of cs c = Some cmp"
  shows "(\<exists>x \<in> set (generate_component_items c cmp). case x of (_, data) \<Rightarrow> \<not> fixed_of cs data)
       = (\<exists>x \<in> set (generate_component_items c cmp). case x of (k, d) \<Rightarrow> \<not> data_fixed cmp k)"
proof (rule bex_cong [OF refl])
  fix x assume xin: "x \<in> set (generate_component_items c cmp)"
  obtain k d where x: "x = (k, d)" by (cases x)
  with xin have "d = (c, k)" by (auto dest: items_fst)
  with m x show "(case x of (_, data) \<Rightarrow> \<not> fixed_of cs data)
             = (case x of (k, d) \<Rightarrow> \<not> data_fixed cmp k)"
    by (simp add: fixed_of_lookup)
qed

lemma entry_fails_Some:
  "map_of cs c = Some cmp \<Longrightarrow>
     entry_fails cs (Some c) =
       ((ctype cmp = Param \<and> (\<not> mutable cmp \<or> isl (initialize cmp)))
        \<or> (ctype cmp = Var
            \<and> ((\<exists>(k, d) \<in> set (generate_component_items c cmp). \<not> data_fixed cmp k)
                \<or> isl (initialize cmp))))"
  using items_fixed_cong [of cs c cmp] by (simp add: entry_fails_def)

lemma set_sorted_robust [simp]: "set (sorted_robust ks) = set ks"
  by (simp add: sorted_robust_def)

lemma items_set:
  "map_of cs c = Some cmp \<Longrightarrow>
     set (generate_component_items c cmp) = (\<lambda>k. (k, (c, k))) ` elements_of cs c"
  by (auto simp: generate_component_items_def elements_of_def)




lemma planner_passes:
  assumes run: "planner uniq 0 es cs0 b0 = (e, cs', b')"
    and resolved: "\<forall>c. Some c \<in> set es \<longrightarrow> map_of cs0 c \<noteq> None"
  shows "(e = None) = (\<forall>entry \<in> set es. \<not> entry_fails cs0 entry)"
proof -
  let ?Q = "\<lambda>j cs (b :: block).
      (\<forall>c cmp. map_of cs0 c = Some cmp \<longrightarrow> map_of cs c = Some cmp)
      \<and> (\<forall>l < j. \<not> entry_fails cs0 (es ! l))"
  have same: "map_of cs0 c = Some cmp"
    if "?Q j cs b" "j < length es" "es ! j = Some c" "map_of cs c = Some cmp" for j cs b c cmp
  proof -
    from that(2,3) have "Some c \<in> set es" by (metis nth_mem)
    with resolved obtain cmp0 where "map_of cs0 c = Some cmp0" by auto
    with that(1,4) show ?thesis by auto
  qed
  have "\<exists>j. 0 \<le> j \<and> j \<le> 0 + length es \<and> ?Q j cs' b'
            \<and> (e = None \<longrightarrow> j = 0 + length es)
            \<and> (e \<noteq> None \<longrightarrow> j < 0 + length es \<and> entry_fails cs' (es ! (j - 0)))"
  proof (rule planner_invariant [where Q = ?Q, OF run])
    show "?Q 0 cs0 b0" by simp
  next
    fix j c cmp d cs b cs1 b1
    assume q: "?Q j cs b" and j: "0 \<le> j" "j < 0 + length es" "es ! (j - 0) = Some c"
      and cmp: "map_of cs c = Some cmp"
    from same [OF q] j cmp have c0: "map_of cs0 c = Some cmp" by simp
    { assume t: "ctype cmp = Param" "mutable cmp" "initialize cmp = Inr d"
        and a: "add_var uniq j c cmp d cs b = (cs1, b1)"
      from t c0 have "\<not> entry_fails cs0 (es ! j)" using j by (simp add: entry_fails_Some)
      moreover from a have "\<exists>new. cs1 = cs @ new" by (auto simp: add_var_def Let_def)
      ultimately show "?Q (Suc j) cs1 b1"
        using q by (auto simp: less_Suc_eq map_add_Some_iff) }
    { assume t: "ctype cmp = Var"
        "\<not> (\<exists>(_, data) \<in> set (generate_component_items c cmp). \<not> fixed_of cs data)"
        "initialize cmp = Inr d"
        and a: "add_param uniq j c cmp d cs b = (cs1, b1)"
      from t(2) items_fixed_cong [OF cmp]
      have "\<not> (\<exists>(k, d) \<in> set (generate_component_items c cmp). \<not> data_fixed cmp k)"
        by simp
      with t c0 have "\<not> entry_fails cs0 (es ! j)" using j by (simp add: entry_fails_Some)
      moreover from a have "\<exists>new. cs1 = cs @ new" by (auto simp: add_param_def Let_def)
      ultimately show "?Q (Suc j) cs1 b1"
        using q by (auto simp: less_Suc_eq map_add_Some_iff) }
    { assume t: "ctype cmp \<noteq> Param" "ctype cmp \<noteq> Var"
      with c0 have "\<not> entry_fails cs0 (es ! j)" using j by (simp add: entry_fails_Some)
      then show "?Q (Suc j) cs b" using q by (auto simp: less_Suc_eq) }
  qed
  then obtain j where q: "?Q j cs' b'" and ok: "e = None \<longrightarrow> j = length es"
    and bad: "e \<noteq> None \<longrightarrow> j < length es \<and> entry_fails cs' (es ! j)"
    by auto
  show ?thesis
  proof
    assume "e = None"
    with ok q show "\<forall>entry \<in> set es. \<not> entry_fails cs0 entry"
      by (auto simp: in_set_conv_nth)
  next
    assume pass: "\<forall>entry \<in> set es. \<not> entry_fails cs0 entry"
    show "e = None"
    proof (rule ccontr)
      assume "e \<noteq> None"
      with bad have j: "j < length es" and f: "entry_fails cs' (es ! j)" by auto
      from j pass have p: "\<not> entry_fails cs0 (es ! j)" by simp
      then obtain c where c: "es ! j = Some c" by (cases "es ! j") (auto simp: entry_fails_def)
      with j have "Some c \<in> set es" by (metis nth_mem)
      with resolved obtain cmp where c0: "map_of cs0 c = Some cmp" by auto
      with q have c': "map_of cs' c = Some cmp" by simp
      have "entry_fails cs' (Some c) = entry_fails cs0 (Some c)"
        by (simp only: entry_fails_Some [OF c0] entry_fails_Some [OF c'])
      with p f c show False by simp
    qed
  qed
qed



section \<open>Pinning constraints and baseline annotations\<close>

lemma stamp_step_entry:
  assumes "and_then (and_then (and_then
                (set_suffix ''sens_state_0'' var idx inst)
                (set_suffix ''sens_state_1'' var idx))
                (set_suffix ''sens_init_constr'' con idx))
                (set_suffix ''dcdp'' con idx) = (None, inst1)"
  shows "suffix_entry inst1 n k =
           (if n = ''dcdp'' \<and> k = con then Some idx
            else if n = ''sens_init_constr'' \<and> k = con then Some idx
            else if n = ''sens_state_1'' \<and> k = var then Some idx
            else if n = ''sens_state_0'' \<and> k = var then Some idx
            else suffix_entry inst n k)"
proof -
  from and_then_None [OF assms] obtain s3 where
    c3: "and_then (and_then (set_suffix ''sens_state_0'' var idx inst)
                (set_suffix ''sens_state_1'' var idx))
                (set_suffix ''sens_init_constr'' con idx) = (None, s3)"
    and w4: "set_suffix ''dcdp'' con idx s3 = (None, inst1)" by blast
  from and_then_None [OF c3] obtain s2 where
    c2: "and_then (set_suffix ''sens_state_0'' var idx inst)
                (set_suffix ''sens_state_1'' var idx) = (None, s2)"
    and w3: "set_suffix ''sens_init_constr'' con idx s2 = (None, s3)" by blast
  from and_then_None [OF c2] obtain s1 where
    w1: "set_suffix ''sens_state_0'' var idx inst = (None, s1)"
    and w2: "set_suffix ''sens_state_1'' var idx s1 = (None, s2)" by blast
  show ?thesis
    by (simp only: set_suffix_entry [OF w4] set_suffix_entry [OF w3]
          set_suffix_entry [OF w2] set_suffix_entry [OF w1])
qed

lemma stamp_Cons_None:
  assumes "stamp pc i ((var, p, li, k) # rs) inst = (None, inst')"
  obtains inst1 where
    "and_then (and_then (and_then
                (set_suffix ''sens_state_0'' var (real (i + 1)) inst)
                (set_suffix ''sens_state_1'' var (real (i + 1))))
                (set_suffix ''sens_init_constr'' (pc, Idx (i + 1)) (real (i + 1))))
                (set_suffix ''dcdp'' (pc, Idx (i + 1)) (real (i + 1))) = (None, inst1)"
    "stamp pc (Suc i) rs inst1 = (None, inst')"
  using assms by (auto simp: Let_def split: prod.splits option.splits)

lemma stamp_con_frame:
  assumes "stamp pc i rs inst = (None, inst')"
    and "n = ''dcdp'' \<or> n = ''sens_init_constr''"
    and "\<forall>j < length rs. k \<noteq> (pc, Idx (i + j + 1))"
  shows "suffix_entry inst' n k = suffix_entry inst n k"
  using assms
proof (induction rs arbitrary: i inst)
  case Nil
  then show ?case by simp
next
  case (Cons r rs)
  obtain var p li ci where r: "r = (var, p, li, ci)" by (cases r)
  from Cons.prems(1) [unfolded r] obtain inst1 where
    step: "and_then (and_then (and_then
                (set_suffix ''sens_state_0'' var (real (i + 1)) inst)
                (set_suffix ''sens_state_1'' var (real (i + 1))))
                (set_suffix ''sens_init_constr'' (pc, Idx (i + 1)) (real (i + 1))))
                (set_suffix ''dcdp'' (pc, Idx (i + 1)) (real (i + 1))) = (None, inst1)"
    and rest: "stamp pc (Suc i) rs inst1 = (None, inst')"
    by (rule stamp_Cons_None)
  from Cons.prems(3) have k0: "k \<noteq> (pc, Idx (i + 1))" by fastforce
  from Cons.prems(3) have later: "\<forall>j < length rs. k \<noteq> (pc, Idx (Suc i + j + 1))" by fastforce
  have "suffix_entry inst' n k = suffix_entry inst1 n k"
    using rest Cons.prems(2) later by (rule Cons.IH)
  also have "\<dots> = suffix_entry inst n k"
    using Cons.prems(2) k0 by (auto simp: stamp_step_entry [OF step])
  finally show ?case .
qed

lemma stamp_con_entry:
  assumes "stamp pc i rs inst = (None, inst')"
    and "n = ''dcdp'' \<or> n = ''sens_init_constr''"
    and "j < length rs"
  shows "suffix_entry inst' n (pc, Idx (i + j + 1)) = Some (real (i + j + 1))"
  using assms
proof (induction rs arbitrary: i inst j)
  case Nil
  then show ?case by simp
next
  case (Cons r rs)
  obtain var p li ci where r: "r = (var, p, li, ci)" by (cases r)
  from Cons.prems(1) [unfolded r] obtain inst1 where
    step: "and_then (and_then (and_then
                (set_suffix ''sens_state_0'' var (real (i + 1)) inst)
                (set_suffix ''sens_state_1'' var (real (i + 1))))
                (set_suffix ''sens_init_constr'' (pc, Idx (i + 1)) (real (i + 1))))
                (set_suffix ''dcdp'' (pc, Idx (i + 1)) (real (i + 1))) = (None, inst1)"
    and rest: "stamp pc (Suc i) rs inst1 = (None, inst')"
    by (rule stamp_Cons_None)
  show ?case
  proof (cases j)
    case 0
    have "suffix_entry inst' n (pc, Idx (i + 1)) = suffix_entry inst1 n (pc, Idx (i + 1))"
      using rest Cons.prems(2) by (rule stamp_con_frame) simp
    also have "\<dots> = Some (real (i + 1))"
      using Cons.prems(2) by (auto simp: stamp_step_entry [OF step])
    finally show ?thesis using 0 by simp
  next
    case (Suc j')
    with Cons.prems(3) have "j' < length rs" by simp
    from Cons.IH [OF rest Cons.prems(2) this] Suc show ?thesis by simp
  qed
qed

lemma stamp_var_frame:
  assumes "stamp pc i rs inst = (None, inst')"
    and "n = ''sens_state_0'' \<or> n = ''sens_state_1''"
    and "k \<notin> fst ` set rs"
  shows "suffix_entry inst' n k = suffix_entry inst n k"
  using assms
proof (induction rs arbitrary: i inst)
  case Nil
  then show ?case by simp
next
  case (Cons r rs)
  obtain var p li ci where r: "r = (var, p, li, ci)" by (cases r)
  from Cons.prems(1) [unfolded r] obtain inst1 where
    step: "and_then (and_then (and_then
                (set_suffix ''sens_state_0'' var (real (i + 1)) inst)
                (set_suffix ''sens_state_1'' var (real (i + 1))))
                (set_suffix ''sens_init_constr'' (pc, Idx (i + 1)) (real (i + 1))))
                (set_suffix ''dcdp'' (pc, Idx (i + 1)) (real (i + 1))) = (None, inst1)"
    and rest: "stamp pc (Suc i) rs inst1 = (None, inst')"
    by (rule stamp_Cons_None)
  from Cons.prems(3) r have k0: "k \<noteq> var" and later: "k \<notin> fst ` set rs" by auto
  have "suffix_entry inst' n k = suffix_entry inst1 n k"
    using rest Cons.prems(2) later by (rule Cons.IH)
  also have "\<dots> = suffix_entry inst n k"
    using Cons.prems(2) k0 by (auto simp: stamp_step_entry [OF step])
  finally show ?case .
qed

lemma stamp_var_entry:
  assumes "stamp pc i rs inst = (None, inst')"
    and "n = ''sens_state_0'' \<or> n = ''sens_state_1''"
    and "j < length rs"
    and "\<forall>l. j < l \<and> l < length rs \<longrightarrow> fst (rs ! l) \<noteq> fst (rs ! j)"
  shows "suffix_entry inst' n (fst (rs ! j)) = Some (real (i + j + 1))"
  using assms
proof (induction rs arbitrary: i inst j)
  case Nil
  then show ?case by simp
next
  case (Cons r rs)
  obtain var p li ci where r: "r = (var, p, li, ci)" by (cases r)
  from Cons.prems(1) [unfolded r] obtain inst1 where
    step: "and_then (and_then (and_then
                (set_suffix ''sens_state_0'' var (real (i + 1)) inst)
                (set_suffix ''sens_state_1'' var (real (i + 1))))
                (set_suffix ''sens_init_constr'' (pc, Idx (i + 1)) (real (i + 1))))
                (set_suffix ''dcdp'' (pc, Idx (i + 1)) (real (i + 1))) = (None, inst1)"
    and rest: "stamp pc (Suc i) rs inst1 = (None, inst')"
    by (rule stamp_Cons_None)
  show ?case
  proof (cases j)
    case 0
    have "var \<notin> fst ` set rs"
    proof
      assume "var \<in> fst ` set rs"
      then obtain l where l: "l < length rs" "fst (rs ! l) = var"
        by (auto simp: in_set_conv_nth)
      with Cons.prems(4) [rule_format, of "Suc l"] 0 r show False by simp
    qed
    with rest Cons.prems(2) have "suffix_entry inst' n var = suffix_entry inst1 n var"
      by (rule stamp_var_frame)
    also have "\<dots> = Some (real (i + 1))"
      using Cons.prems(2) by (auto simp: stamp_step_entry [OF step])
    finally show ?thesis using 0 r by simp
  next
    case (Suc j')
    with Cons.prems(3) have j': "j' < length rs" by simp
    have "\<forall>l. j' < l \<and> l < length rs \<longrightarrow> fst (rs ! l) \<noteq> fst (rs ! j')"
    proof (intro allI impI)
      fix l assume "j' < l \<and> l < length rs"
      with Cons.prems(4) [rule_format, of "Suc l"] Suc show "fst (rs ! l) \<noteq> fst (rs ! j')" by simp
    qed
    from Cons.IH [OF rest Cons.prems(2) j' this] Suc show ?thesis by simp
  qed
qed


lemma pin_and_annotate_stamp:
  assumes "pin_and_annotate inst b = (None, inst')"
  obtains inst0 where
    "stamp (fresh_cid (comps inst)) 0 (sens_data_list b) inst0 = (None, inst')"
  using assms by (auto simp: pin_and_annotate_def add_paramConst_def Let_def)

text \<open>
  C9, as the code has it. After a successful setup the pinning list holds, for every
  record in record order, the equality \<open>var - param == 0\<close>; the record's position
  (from 1) is stamped into \<open>sens_init_constr\<close> and \<open>dcdp\<close> under its pinning
  constraint, and into \<open>sens_state_0\<close> and \<open>sens_state_1\<close> under its free entity. A
  stamp is a write: what a record wrote under its free entity is what the slot
  holds unless a later record has the same free entity and wrote there after it.
\<close>

theorem pinning_and_baseline_annotations:
  assumes "setup_sensitivity uniq self paramList = (None, self')"
  shows "\<exists>b pc cons. sens_block (model_instance self') = Some b
           \<and> paramConst b = Some (pc, cons)
           \<and> length cons = length (sens_data_list b)
           \<and> (\<forall>i < length (sens_data_list b).
                 (case sens_data_list b ! i of (var, param, _, _) \<Rightarrow>
                    cons ! i = EqualityExpr (Diff (VarLeaf var) (ParamLeaf param)) (Const 0)
                  \<and> suffix_entry (model_instance self') ''sens_init_constr'' (pc, Idx (i + 1))
                      = Some (real (i + 1))
                  \<and> suffix_entry (model_instance self') ''dcdp'' (pc, Idx (i + 1))
                      = Some (real (i + 1))
                  \<and> ((\<forall>l. i < l \<and> l < length (sens_data_list b)
                            \<longrightarrow> fst (sens_data_list b ! l) \<noteq> var)
                      \<longrightarrow> suffix_entry (model_instance self') ''sens_state_0'' var
                            = Some (real (i + 1))
                        \<and> suffix_entry (model_instance self') ''sens_state_1'' var
                            = Some (real (i + 1)))))"
proof -
  from assms obtain inst1 cs b inst2 b2 inst3 where
    pa: "pin_and_annotate inst2 b2 = (None, inst3)"
    and s: "self' = self\<lparr>has_block := True, model_instance := inst3\<rparr>"
    by (rule setup_sensitivity_success)
  let ?pc = "fresh_cid (comps inst2)"
  let ?cons = "map pinning_constraint (sens_data_list b2)"
  let ?b = "b2\<lparr>paramConst := Some (?pc, ?cons)\<rparr>"
  from pa obtain inst0 where st: "stamp ?pc 0 (sens_data_list b2) inst0 = (None, inst3)"
    by (rule pin_and_annotate_stamp)
  have blk: "sens_block inst3 = Some ?b" using pa by (rule pin_and_annotate_frame(1))
  have each: "case sens_data_list b2 ! i of (var, param, _, _) \<Rightarrow>
                    ?cons ! i = EqualityExpr (Diff (VarLeaf var) (ParamLeaf param)) (Const 0)
                  \<and> suffix_entry inst3 ''sens_init_constr'' (?pc, Idx (i + 1)) = Some (real (i + 1))
                  \<and> suffix_entry inst3 ''dcdp'' (?pc, Idx (i + 1)) = Some (real (i + 1))
                  \<and> ((\<forall>l. i < l \<and> l < length (sens_data_list b2)
                            \<longrightarrow> fst (sens_data_list b2 ! l) \<noteq> var)
                      \<longrightarrow> suffix_entry inst3 ''sens_state_0'' var = Some (real (i + 1))
                        \<and> suffix_entry inst3 ''sens_state_1'' var = Some (real (i + 1)))"
    if i: "i < length (sens_data_list b2)" for i
  proof -
    obtain var param li ci where r: "sens_data_list b2 ! i = (var, param, li, ci)"
      by (cases "sens_data_list b2 ! i")
    have c: "?cons ! i = EqualityExpr (Diff (VarLeaf var) (ParamLeaf param)) (Const 0)"
      using i r by (simp add: pinning_constraint_def)
    have a1: "suffix_entry inst3 ''sens_init_constr'' (?pc, Idx (i + 1)) = Some (real (i + 1))"
      using stamp_con_entry [OF st _ i, of "''sens_init_constr''"] by simp
    have a2: "suffix_entry inst3 ''dcdp'' (?pc, Idx (i + 1)) = Some (real (i + 1))"
      using stamp_con_entry [OF st _ i, of "''dcdp''"] by simp
    have a3: "suffix_entry inst3 ''sens_state_0'' var = Some (real (i + 1))
            \<and> suffix_entry inst3 ''sens_state_1'' var = Some (real (i + 1))"
      if "\<forall>l. i < l \<and> l < length (sens_data_list b2) \<longrightarrow> fst (sens_data_list b2 ! l) \<noteq> var"
      using stamp_var_entry [OF st _ i, of "''sens_state_0''"]
        stamp_var_entry [OF st _ i, of "''sens_state_1''"] that r by simp
    from c a1 a2 a3 show ?thesis by (simp add: r)
  qed
  have "sens_block (model_instance self') = Some ?b \<and> paramConst ?b = Some (?pc, ?cons)
      \<and> length ?cons = length (sens_data_list ?b)"
    using blk s by simp
  moreover have "\<forall>i < length (sens_data_list ?b).
                 (case sens_data_list ?b ! i of (var, param, _, _) \<Rightarrow>
                    ?cons ! i = EqualityExpr (Diff (VarLeaf var) (ParamLeaf param)) (Const 0)
                  \<and> suffix_entry (model_instance self') ''sens_init_constr'' (?pc, Idx (i + 1))
                      = Some (real (i + 1))
                  \<and> suffix_entry (model_instance self') ''dcdp'' (?pc, Idx (i + 1))
                      = Some (real (i + 1))
                  \<and> ((\<forall>l. i < l \<and> l < length (sens_data_list ?b)
                            \<longrightarrow> fst (sens_data_list ?b ! l) \<noteq> var)
                      \<longrightarrow> suffix_entry (model_instance self') ''sens_state_0'' var
                            = Some (real (i + 1))
                        \<and> suffix_entry (model_instance self') ''sens_state_1'' var
                            = Some (real (i + 1))))"
    using each s by simp
  ultimately show ?thesis by blast
qed

theorem pinning_and_baseline_annotations_witness:
  "setup_sensitivity namer0 sens0 [0, 2] = (None, snd (setup_sensitivity namer0 sens0 [0, 2]))
   \<and> (\<exists>b pc cons.
         sens_block (model_instance (snd (setup_sensitivity namer0 sens0 [0, 2]))) = Some b
       \<and> paramConst b = Some (pc, cons)
       \<and> length cons = length (sens_data_list b))"
proof -
  have "fst (setup_sensitivity namer0 sens0 [0, 2]) = None" by code_simp
  then have a: "setup_sensitivity namer0 sens0 [0, 2]
                  = (None, snd (setup_sensitivity namer0 sens0 [0, 2]))"
    by (simp add: prod_eq_iff)
  from pinning_and_baseline_annotations [OF a] a show ?thesis by blast
qed

text \<open>
  C9 as stated fails on \<open>sens_init_constr\<close>. Designating the parameter \<open>p\<close> of
  \<open>model0\<close>: the only record has the free entity \<open>(3, NotAnIndex)\<close> and the pinning
  constraint \<open>(4, Idx 1)\<close>; \<open>sens_init_constr\<close> has no entry under the free entity,
  its entry 1 is under the pinning constraint.
\<close>

theorem baseline_annotations_counterexample:
  "fst (setup_sensitivity namer0 sens0 [0]) = None
   \<and> map_option sens_data_list (sens_block (model_instance (snd (setup_sensitivity namer0 sens0 [0]))))
       = Some [((3, NotAnIndex), (0, NotAnIndex), 0, NotAnIndex)]
   \<and> suffix_entry (model_instance (snd (setup_sensitivity namer0 sens0 [0])))
        ''sens_init_constr'' (3, NotAnIndex) = None
   \<and> suffix_entry (model_instance (snd (setup_sensitivity namer0 sens0 [0])))
        ''sens_init_constr'' (4, Idx 1) = Some 1"
  by code_simp

section \<open>Perturbation annotations\<close>


lemma perturb_step_entry:
  assumes w1: "set_suffix ''sens_state_value_1'' var ptb inst = (None, s1)"
    and w2: "set_suffix ''DeltaP'' con delta s1 = (None, inst')"
  shows "suffix_entry inst' n k =
           (if n = ''DeltaP'' \<and> k = con then Some delta
            else if n = ''sens_state_value_1'' \<and> k = var then Some ptb
            else suffix_entry inst n k)"
    and "comps inst' = comps inst"
proof -
  from set_suffix_frame [OF w1] have c1: "comps s1 = comps inst" by simp
  from set_suffix_frame [OF w2] c1 show "comps inst' = comps inst" by simp
  show "suffix_entry inst' n k =
           (if n = ''DeltaP'' \<and> k = con then Some delta
            else if n = ''sens_state_value_1'' \<and> k = var then Some ptb
            else suffix_entry inst n k)"
    by (simp only: set_suffix_entry [OF w2] set_suffix_entry [OF w1])
qed

lemma perturb_loop_Cons_None:
  assumes "perturb_loop fsub pl pc n i ((var, param, li, ci) # rs) inst = (None, inst')"
  obtains ptb v s1 inst1 where
    "i + 1 \<le> n"
    "resolve_ptb pl li ci = Inr ptb"
    "set_suffix ''sens_state_value_1'' var ptb inst = (None, s1)"
    "value_of (comps inst) var = Some v"
    "set_suffix ''DeltaP'' (pc, Idx (i + 1)) (fsub v ptb) s1 = (None, inst1)"
    "perturb_loop fsub pl pc n (Suc i) rs inst1 = (None, inst')"
proof -
  from assms have n: "i + 1 \<le> n" by (auto split: if_splits)
  from assms n obtain ptb where p: "resolve_ptb pl li ci = Inr ptb"
    by (cases "resolve_ptb pl li ci") (auto simp: Let_def)
  obtain e1 s1 where w1: "set_suffix ''sens_state_value_1'' var ptb inst = (e1, s1)"
    by (cases "set_suffix ''sens_state_value_1'' var ptb inst")
  from assms n p w1 have e1: "e1 = None" by (cases e1) (auto simp: Let_def)
  from set_suffix_frame [OF w1] have c1: "comps s1 = comps inst" by simp
  from assms n p w1 e1 c1 obtain v where v: "value_of (comps inst) var = Some v"
    by (cases "value_of (comps inst) var") (auto simp: Let_def value_minus_def)
  obtain e2 inst1 where w2: "set_suffix ''DeltaP'' (pc, Idx (i + 1)) (fsub v ptb) s1 = (e2, inst1)"
    by (cases "set_suffix ''DeltaP'' (pc, Idx (i + 1)) (fsub v ptb) s1")
  from assms n p w1 e1 c1 v w2 have e2: "e2 = None"
    by (cases e2) (auto simp: Let_def value_minus_def)
  from assms n p w1 e1 c1 v w2 e2
  have "perturb_loop fsub pl pc n (Suc i) rs inst1 = (None, inst')"
    by (simp add: Let_def value_minus_def)
  with n p w1 e1 v w2 e2 that show ?thesis by simp
qed

lemma perturb_loop_comps:
  "perturb_loop fsub pl pc n i rs inst = (None, inst') \<Longrightarrow> comps inst' = comps inst"
proof (induction rs arbitrary: i inst)
  case Nil
  then show ?case by simp
next
  case (Cons r rs)
  obtain var param li ci where r: "r = (var, param, li, ci)" by (cases r)
  from Cons.prems [unfolded r] obtain ptb v s1 inst1 where
    w1: "set_suffix ''sens_state_value_1'' var ptb inst = (None, s1)"
    and w2: "set_suffix ''DeltaP'' (pc, Idx (i + 1)) (fsub v ptb) s1 = (None, inst1)"
    and rest: "perturb_loop fsub pl pc n (Suc i) rs inst1 = (None, inst')"
    by (rule perturb_loop_Cons_None)
  from Cons.IH [OF rest] perturb_step_entry(2) [OF w1 w2] show ?case by simp
qed





section \<open>The driver and the length of the perturbation list\<close>

lemma solve_frame:
  assumes "solve solver name (m, W) = (e, m', W')"
  shows "sens_block m' = sens_block m" and "invoked W' = invoked W @ [name]"
    and "dsdp W' = dsdp W"
  using assms by (auto simp: solve_def load_solution_def split: prod.splits)

lemma suffix_update_frame:
  "suffix_update dst src m = (e, m') \<Longrightarrow> sens_block m' = sens_block m"
  by (auto simp: suffix_update_def split: option.splits)

lemma kaug_baseline_frame:
  assumes "kaug_baseline solver (m, W) = (e, m', W')"
  shows "sens_block m' = sens_block m"
    and "invoked W' = invoked W @ [''ipopt''] \<or> invoked W' = invoked W @ [''ipopt'', ''k_aug'']"
proof -
  obtain e1 m1 W1 where s1: "solve solver ''ipopt'' (m, W) = (e1, m1, W1)"
    by (cases "solve solver ''ipopt'' (m, W)")
  note f1 = solve_frame [OF s1]
  show "sens_block m' = sens_block m"
    and "invoked W' = invoked W @ [''ipopt''] \<or> invoked W' = invoked W @ [''ipopt'', ''k_aug'']"
  proof (atomize (full), cases e1)
    case (Some a)
    with assms s1 f1 show "sens_block m' = sens_block m
      \<and> (invoked W' = invoked W @ [''ipopt''] \<or> invoked W' = invoked W @ [''ipopt'', ''k_aug''])"
      by (auto simp: kaug_baseline_def)
  next
    case None
    obtain e2 m2 where u: "and_then (suffix_update ''ipopt_zL_in'' ''ipopt_zL_out'' m1)
                 (suffix_update ''ipopt_zU_in'' ''ipopt_zU_out'') = (e2, m2)"
      by (cases "and_then (suffix_update ''ipopt_zL_in'' ''ipopt_zL_out'' m1)
                 (suffix_update ''ipopt_zU_in'' ''ipopt_zU_out'')")
    have b2: "sens_block m2 = sens_block m1"
      using u
      by (cases "suffix_update ''ipopt_zL_in'' ''ipopt_zL_out'' m1")
         (auto simp: and_then_def split: option.splits dest!: suffix_update_frame)
    show "sens_block m' = sens_block m
      \<and> (invoked W' = invoked W @ [''ipopt''] \<or> invoked W' = invoked W @ [''ipopt'', ''k_aug''])"
    proof (cases e2)
      case (Some a)
      with assms s1 None u f1 b2 show ?thesis by (auto simp: kaug_baseline_def)
    next
      case N2: None
      obtain e3 m3 W3 where s3: "solve solver ''k_aug'' (m2, W1) = (e3, m3, W3)"
        by (cases "solve solver ''k_aug'' (m2, W1)")
      note f3 = solve_frame [OF s3]
      from assms s1 None u N2 s3 f1 b2 f3 show ?thesis
        by (cases e3) (auto simp: kaug_baseline_def)
    qed
  qed
qed

lemma perturb_parameters_mismatch:
  assumes "has_block self" and "sens_block (model_instance self) = Some b"
    and "paramConst b \<noteq> None" and "length (paramList_of b) \<noteq> length perturbList"
  shows "perturb_parameters fsub self perturbList = (Some ValueError, self)"
  using assms by (auto simp: perturb_parameters_def Let_def)

text \<open>
  C3, as the code has it. A perturbation list whose length differs from that of
  the designated list makes the run fail, whatever the solvers do. With the
  strategy \<open>sipopt\<close> it fails before any external solver is invoked: the world is
  as it was. With the strategy \<open>kaug\<close> the baseline solves come first: when the run
  fails, \<open>ipopt\<close> and then \<open>k_aug\<close> may already have been invoked; the sensitivity
  solver \<open>dot_sens\<close> has not.
\<close>

theorem length_mismatch_fails:
  assumes "length perturbList \<noteq> length paramList"
  shows "(\<exists>e. sensitivity_calculation uniq solver fsub ''sipopt'' inst paramList perturbList cloneModel W
               = (Inl e, W))
       \<and> (\<exists>e W'. sensitivity_calculation uniq solver fsub ''kaug'' inst paramList perturbList cloneModel W
                  = (Inl e, W')
               \<and> (invoked W' = invoked W
                  \<or> invoked W' = invoked W @ [''ipopt'']
                  \<or> invoked W' = invoked W @ [''ipopt'', ''k_aug'']))"
proof -
  let ?sens = "SensitivityInterface_init inst cloneModel"
  obtain e1 sens1 where st: "setup_sensitivity uniq ?sens paramList = (e1, sens1)"
    by (cases "setup_sensitivity uniq ?sens paramList")
  show ?thesis
  proof (cases e1)
    case (Some err)
    with st show ?thesis by (simp add: sensitivity_calculation_def)
  next
    case None
    with st have ok: "setup_sensitivity uniq ?sens paramList = (None, sens1)" by simp
    from setup_block_attrs [OF ok] obtain b where
      b: "sens_block (model_instance sens1) = Some b" "paramConst b \<noteq> None"
      "length (paramList_of b) = length paramList"
      and hb: "has_block sens1"
      by auto
    from b(3) assms have ne: "length (paramList_of b) \<noteq> length perturbList" by simp
    have p1: "perturb_parameters fsub (sens1\<lparr>model_instance := m\<rparr>) perturbList
               = (Some ValueError, sens1\<lparr>model_instance := m\<rparr>)"
      if "sens_block m = Some b" for m
      using that hb b(2) ne by (intro perturb_parameters_mismatch) simp_all
    have sip: "sensitivity_calculation uniq solver fsub ''sipopt'' inst paramList perturbList cloneModel W
               = (Inl ValueError, W)"
      using ok p1 [OF b(1)] by (simp add: sensitivity_calculation_def)
    obtain e2 m2 W2 where kb: "kaug_baseline solver (model_instance sens1, W) = (e2, m2, W2)"
      by (cases "kaug_baseline solver (model_instance sens1, W)")
    note kf = kaug_baseline_frame [OF kb]
    have "\<exists>e. sensitivity_calculation uniq solver fsub ''kaug'' inst paramList perturbList cloneModel W
                  = (Inl e, W2)"
    proof (cases e2)
      case (Some err)
      with ok kb show ?thesis by (simp add: sensitivity_calculation_def)
    next
      case None
      from kf(1) b(1) have "sens_block m2 = Some b" by simp
      from p1 [OF this] ok kb None show ?thesis by (simp add: sensitivity_calculation_def)
    qed
    with kf(2) sip show ?thesis by blast
  qed
qed

theorem length_mismatch_fails_witness:
  "length ([] :: perturbation list) \<noteq> length [0 :: nat]
   \<and> (\<exists>e. sensitivity_calculation namer0 solver0 (-) ''sipopt'' model0 [0] [] False world0
               = (Inl e, world0))
   \<and> (\<exists>e W'. sensitivity_calculation namer0 solver0 (-) ''kaug'' model0 [0] [] False world0
                  = (Inl e, W'))"
proof -
  have a: "length ([] :: perturbation list) \<noteq> length [0 :: nat]" by simp
  from length_mismatch_fails [OF a, where uniq = namer0 and solver = solver0 and fsub = "(-)"
         and inst = model0 and cloneModel = False and W = world0] a
  show ?thesis by blast
qed

text \<open>
  C3 as stated fails for the strategy \<open>kaug\<close>. Designating \<open>p\<close> of \<open>model0\<close> with an
  empty perturbation list: the run fails, and \<open>ipopt\<close> and \<open>k_aug\<close> have been
  invoked by then.
\<close>

theorem length_mismatch_kaug_counterexample:
  "length ([] :: perturbation list) \<noteq> length [0 :: nat]
   \<and> isl (fst (sensitivity_calculation namer0 solver0 (-) ''kaug'' model0 [0] [] False world0))
   \<and> invoked (snd (sensitivity_calculation namer0 solver0 (-) ''kaug'' model0 [0] [] False world0))
       = [''ipopt'', ''k_aug'']"
  by code_simp

section \<open>Rewriting a ranged inequality\<close>

text \<open>
  C1, evaluated. Designating \<open>p\<close> in \<open>model0\<close> rewrites the ranged constraint
  \<open>p \<le> x \<le> 10\<close>, with \<open>p\<close> replaced by the variable \<open>(3, NotAnIndex)\<close>, into the two
  constraints \<open>p_var \<le> 10\<close> and \<open>x \<le> 10\<close>: the first compares the lower bound with the
  upper bound, not with the body. Under the assignment \<open>p_var = 0\<close>, \<open>x = -5\<close> both
  installed constraints hold and the ranged constraint \<open>p_var \<le> x \<le> 10\<close> does not.
\<close>

theorem ranged_constraint_split_evaluated:
  "fst (setup_sensitivity namer0 sens0 [0]) = None
   \<and> map_option constList (sens_block (model_instance (snd (setup_sensitivity namer0 sens0 [0]))))
       = Some (Some [InequalityExpr (VarLeaf (3, NotAnIndex)) (Const 10),
                     InequalityExpr (VarLeaf (1, NotAnIndex)) (Const 10)])
   \<and> map_option (dfs_postorder_stack_relational [(0, NotAnIndex) \<mapsto> (3, NotAnIndex)])
        (con_expr ranged_con)
       = Some (RangedExpr (VarLeaf (3, NotAnIndex)) (VarLeaf (1, NotAnIndex)) (Const 10))
   \<and> satisfies assignment0 (InequalityExpr (VarLeaf (3, NotAnIndex)) (Const 10))
   \<and> satisfies assignment0 (InequalityExpr (VarLeaf (1, NotAnIndex)) (Const 10))
   \<and> \<not> satisfies assignment0
          (RangedExpr (VarLeaf (3, NotAnIndex)) (VarLeaf (1, NotAnIndex)) (Const 10))"
proof -
  have a: "fst (setup_sensitivity namer0 sens0 [0]) = None" by code_simp
  have b: "map_option constList (sens_block (model_instance (snd (setup_sensitivity namer0 sens0 [0]))))
       = Some (Some [InequalityExpr (VarLeaf (3, NotAnIndex)) (Const 10),
                     InequalityExpr (VarLeaf (1, NotAnIndex)) (Const 10)])"
    by code_simp
  have c: "map_option (dfs_postorder_stack_relational [(0, NotAnIndex) \<mapsto> (3, NotAnIndex)])
        (con_expr ranged_con)
       = Some (RangedExpr (VarLeaf (3, NotAnIndex)) (VarLeaf (1, NotAnIndex)) (Const 10))"
    by (simp add: con_expr_def ranged_con_def)
  have d: "satisfies assignment0 (InequalityExpr (VarLeaf (3, NotAnIndex)) (Const 10))"
    "satisfies assignment0 (InequalityExpr (VarLeaf (1, NotAnIndex)) (Const 10))"
    "\<not> satisfies assignment0
          (RangedExpr (VarLeaf (3, NotAnIndex)) (VarLeaf (1, NotAnIndex)) (Const 10))"
    by (simp_all add: assignment0_def)
  from a b c d show ?thesis by simp
qed

section \<open>The substitutes and their initial values\<close>

lemma items_keys_elements:
  "map_of cs c = Some cmp \<Longrightarrow> fst ` set (generate_component_items c cmp) = elements_of cs c"
  by (simp add: items_set image_image)

lemma initialize_items:
  assumes "initialize cmp = Inr d" and "map_of cs c = Some cmp" and "k \<in> elements_of cs c"
  shows "d k = data_value cmp k" and "data_value cmp k \<noteq> None"
proof -
  have "d k = data_value cmp k \<and> data_value cmp k \<noteq> None"
  proof (cases "is_indexed cmp")
    case True
    with assms show ?thesis
      by (auto simp: initialize_def elements_of_def split: if_splits)
  next
    case False
    with assms show ?thesis
      by (cases "data_value cmp NotAnIndex") (auto simp: initialize_def elements_of_def)
  qed
  then show "d k = data_value cmp k" and "data_value cmp k \<noteq> None" by simp_all
qed

lemma elements_of_append_old:
  "map_of cs c \<noteq> None \<Longrightarrow> elements_of (cs @ ys) c = elements_of cs c"
  by (auto simp: elements_of_def map_add_def split: option.splits)

lemma ctype_of_append_old: "ctype_of cs c = Some t \<Longrightarrow> ctype_of (cs @ ys) c = Some t"
  by (auto simp: ctype_of_def map_add_Some_iff)

lemma value_of_append_old: "map_of cs (fst v) \<noteq> None \<Longrightarrow> value_of (cs @ ys) v = value_of cs v"
  by (auto simp: value_of_def map_add_def split: option.splits)

lemma mutable_of_append_old: "map_of cs c \<noteq> None \<Longrightarrow> mutable_of (cs @ ys) c = mutable_of cs c"
  by (auto simp: mutable_of_def map_add_def split: option.splits)

lemma fixed_of_append_old: "map_of cs (fst v) \<noteq> None \<Longrightarrow> fixed_of (cs @ ys) v = fixed_of cs v"
  by (auto simp: fixed_of_def map_add_def split: option.splits)

lemma record_ok_append:
  assumes "record_ok cs0 es cs r"
  shows "record_ok cs0 es (cs @ ys) r"
proof -
  obtain var param li k where r: "r = (var, param, li, k)" by (cases r)
  from assms r obtain c where c: "li < length es" "es ! li = Some c"
    by (auto simp: record_ok_def split: option.splits)
  show ?thesis
  proof (cases "ctype_of cs0 c = Some Param")
    case True
    with assms r c have a: "ctype_of cs (fst var) = Some Var" by (simp add: record_ok_def)
    then have "map_of cs (fst var) \<noteq> None" by (rule ctype_of_Some_dom)
    with assms r c True a show ?thesis
      by (simp add: record_ok_def ctype_of_append_old value_of_append_old elements_of_append_old)
  next
    case False
    with assms r c have a: "ctype_of cs (fst param) = Some Param" by (simp add: record_ok_def)
    then have "map_of cs (fst param) \<noteq> None" by (rule ctype_of_Some_dom)
    with assms r c False a show ?thesis
      by (simp add: record_ok_def ctype_of_append_old value_of_append_old mutable_of_append_old
            elements_of_append_old)
  qed
qed

lemma items_keys:
  "(k, d) \<in> set (generate_component_items c cmp) \<Longrightarrow> k \<in> fst ` set (generate_component_items c cmp)"
  by force

lemma add_var_records:
  assumes add: "add_var uniq j c cmp d cs b = (cs1, b1)"
    and init: "initialize cmp = Inr d"
    and cur: "map_of cs c = Some cmp" and orig: "map_of cs0 c = Some cmp"
    and t: "ctype cmp = Param"
    and pos: "j < length es" "es ! j = Some c"
    and mono: "\<forall>c cmp. map_of cs0 c = Some cmp \<longrightarrow> map_of cs c = Some cmp"
  shows "\<exists>new x. cs1 = cs @ [(fresh_cid cs, x)]
           \<and> sens_data_list b1 = sens_data_list b @ new
           \<and> (\<forall>r \<in> set new. record_ok cs0 es cs1 r)
           \<and> (\<forall>k \<in> elements_of cs0 c.
                 \<exists>var param. (var, param, j, k) \<in> set new)"
proof -
  let ?n = "fresh_cid cs"
  let ?x = "\<lparr>ctype = Var, local_name = uniq (block_names b) (local_name cmp), mutable = False,
                 is_indexed = is_indexed cmp, index_set = index_set cmp,
                 data_value = d, data_fixed = (\<lambda>_. False)\<rparr>"
  let ?new = "map (\<lambda>(idx, param). ((?n, idx), param, j, idx)) (generate_component_items c cmp)"
  have same: "(if is_indexed cmp then ?new else [((?n, NotAnIndex), (c, NotAnIndex), j, NotAnIndex)])
                = ?new"
    by (simp add: generate_component_items_def)
  have "add_var uniq j c cmp d cs b =
          (cs @ [(?n, ?x)],
           b\<lparr>decl := decl b @ [(uniq (block_names b) (local_name cmp), ?n)],
             sens_data_list := sens_data_list b @
               (if is_indexed cmp then ?new else [((?n, NotAnIndex), (c, NotAnIndex), j, NotAnIndex)])\<rparr>)"
    by (simp only: add_var_def Let_def)
  with add have cs1: "cs1 = cs @ [(?n, ?x)]"
    and b1: "b1 = b\<lparr>decl := decl b @ [(uniq (block_names b) (local_name cmp), ?n)],
             sens_data_list := sens_data_list b @
               (if is_indexed cmp then ?new else [((?n, NotAnIndex), (c, NotAnIndex), j, NotAnIndex)])\<rparr>"
    by simp_all
  have sdl: "sens_data_list b1 = sens_data_list b @ ?new"
    unfolding b1 same by simp
  have n_cur: "map_of cs ?n = None" by (rule fresh_cid_fresh)
  with mono have n0: "map_of cs0 ?n = None" by (cases "map_of cs0 ?n") auto
  have look: "map_of cs1 ?n = Some ?x" unfolding cs1 using n_cur by (rule map_of_append_new)
  have acc: "ctype_of cs1 ?n = Some Var" "\<And>k. value_of cs1 (?n, k) = d k"
    "elements_of cs1 ?n = elements_of cs0 c"
    by (simp_all add: ctype_of_def value_of_def mutable_of_def elements_of_def look orig)
  have c0: "ctype_of cs0 c = Some Param"
    "\<And>k. value_of cs0 (c, k) = data_value cmp k"
    using orig t by (simp_all add: ctype_of_def value_of_def)
  note keys = items_keys_elements [OF orig]
  have ok: "record_ok cs0 es cs1 r" if "r \<in> set ?new" for r
  proof -
    from that obtain k x where kd: "(k, x) \<in> set (generate_component_items c cmp)"
      and r: "r = ((?n, k), x, j, k)" by auto
    from kd have d: "x = (c, k)" by (rule items_fst)
    from kd have "k \<in> fst ` set (generate_component_items c cmp)" by (rule items_keys)
    then have key: "k \<in> elements_of cs0 c" by (simp only: keys)
    show ?thesis
      unfolding r d record_ok_def
      using pos key n0 initialize_items [OF init orig key]
      by (simp add: acc c0)
  qed
  have cover: "\<exists>var param. (var, param, j, k) \<in> set ?new"
    if "k \<in> elements_of cs0 c" for k
  proof -
    from that have "k \<in> fst ` set (generate_component_items c cmp)" by (simp only: keys)
    then obtain x where "(k, x) \<in> set (generate_component_items c cmp)" by auto
    then have "((?n, k), x, j, k) \<in> set ?new" by force
    then show ?thesis by blast
  qed
  have cover': "\<forall>k \<in> elements_of cs0 c.
                 \<exists>var param. (var, param, j, k) \<in> set ?new"
    using cover by (rule ballI)
  have ok': "\<forall>r \<in> set ?new. record_ok cs0 es cs1 r"
    using ok by (rule ballI)
  from cs1 sdl ok' cover' show ?thesis
    by (intro exI [of _ ?new] exI [of _ ?x] conjI)
qed

lemma add_param_records:
  assumes add: "add_param uniq j c cmp d cs b = (cs1, b1)"
    and init: "initialize cmp = Inr d"
    and cur: "map_of cs c = Some cmp" and orig: "map_of cs0 c = Some cmp"
    and t: "ctype cmp = Var"
    and pos: "j < length es" "es ! j = Some c"
    and mono: "\<forall>c cmp. map_of cs0 c = Some cmp \<longrightarrow> map_of cs c = Some cmp"
  shows "\<exists>new x. cs1 = cs @ [(fresh_cid cs, x)]
           \<and> sens_data_list b1 = sens_data_list b @ new
           \<and> (\<forall>r \<in> set new. record_ok cs0 es cs1 r)
           \<and> (\<forall>k \<in> elements_of cs0 c.
                 \<exists>var param. (var, param, j, k) \<in> set new)"
proof -
  let ?n = "fresh_cid cs"
  let ?x = "\<lparr>ctype = Param, local_name = uniq (block_names b) (local_name cmp), mutable = True,
                 is_indexed = is_indexed cmp, index_set = index_set cmp,
                 data_value = d, data_fixed = (\<lambda>_. False)\<rparr>"
  let ?new = "map (\<lambda>(idx, var). (var, (?n, idx), j, idx)) (generate_component_items c cmp)"
  have same: "(if is_indexed cmp then ?new else [((c, NotAnIndex), (?n, NotAnIndex), j, NotAnIndex)])
                = ?new"
    by (simp add: generate_component_items_def)
  have "add_param uniq j c cmp d cs b =
          (cs @ [(?n, ?x)],
           b\<lparr>decl := decl b @ [(uniq (block_names b) (local_name cmp), ?n)],
             sens_data_list := sens_data_list b @
               (if is_indexed cmp then ?new else [((c, NotAnIndex), (?n, NotAnIndex), j, NotAnIndex)])\<rparr>)"
    by (simp only: add_param_def Let_def)
  with add have cs1: "cs1 = cs @ [(?n, ?x)]"
    and b1: "b1 = b\<lparr>decl := decl b @ [(uniq (block_names b) (local_name cmp), ?n)],
             sens_data_list := sens_data_list b @
               (if is_indexed cmp then ?new else [((c, NotAnIndex), (?n, NotAnIndex), j, NotAnIndex)])\<rparr>"
    by simp_all
  have sdl: "sens_data_list b1 = sens_data_list b @ ?new"
    unfolding b1 same by simp
  have n_cur: "map_of cs ?n = None" by (rule fresh_cid_fresh)
  with mono have n0: "map_of cs0 ?n = None" by (cases "map_of cs0 ?n") auto
  have look: "map_of cs1 ?n = Some ?x" unfolding cs1 using n_cur by (rule map_of_append_new)
  have acc: "ctype_of cs1 ?n = Some Param" "\<And>k. value_of cs1 (?n, k) = d k" "mutable_of cs1 ?n"
    "elements_of cs1 ?n = elements_of cs0 c"
    by (simp_all add: ctype_of_def value_of_def mutable_of_def elements_of_def look orig)
  have c0: "ctype_of cs0 c = Some Var"
    "\<And>k. value_of cs0 (c, k) = data_value cmp k"
    using orig t by (simp_all add: ctype_of_def value_of_def)
  note keys = items_keys_elements [OF orig]
  have ok: "record_ok cs0 es cs1 r" if "r \<in> set ?new" for r
  proof -
    from that obtain k x where kd: "(k, x) \<in> set (generate_component_items c cmp)"
      and r: "r = (x, (?n, k), j, k)" by auto
    from kd have d: "x = (c, k)" by (rule items_fst)
    from kd have "k \<in> fst ` set (generate_component_items c cmp)" by (rule items_keys)
    then have key: "k \<in> elements_of cs0 c" by (simp only: keys)
    show ?thesis
      unfolding r d record_ok_def
      using pos key n0 initialize_items [OF init orig key]
      by (simp add: acc c0)
  qed
  have cover: "\<exists>var param. (var, param, j, k) \<in> set ?new"
    if "k \<in> elements_of cs0 c" for k
  proof -
    from that have "k \<in> fst ` set (generate_component_items c cmp)" by (simp only: keys)
    then obtain x where "(k, x) \<in> set (generate_component_items c cmp)" by auto
    then have "(x, (?n, k), j, k) \<in> set ?new" by force
    then show ?thesis by blast
  qed
  have cover': "\<forall>k \<in> elements_of cs0 c.
                 \<exists>var param. (var, param, j, k) \<in> set ?new"
    using cover by (rule ballI)
  have ok': "\<forall>r \<in> set ?new. record_ok cs0 es cs1 r"
    using ok by (rule ballI)
  from cs1 sdl ok' cover' show ?thesis
    by (intro exI [of _ ?new] exI [of _ ?x] conjI)
qed


lemma planner_records:
  assumes run: "planner uniq 0 es cs0 b0 = (None, cs', b')"
    and resolved: "\<forall>c. Some c \<in> set es \<longrightarrow> map_of cs0 c \<noteq> None"
    and empty: "sens_data_list b0 = []"
  shows "\<forall>r \<in> set (sens_data_list b'). record_ok cs0 es cs' r"
    and "\<forall>l < length es. \<forall>c. es ! l = Some c
            \<and> (ctype_of cs0 c = Some Param \<or> ctype_of cs0 c = Some Var)
          \<longrightarrow> (\<forall>k \<in> elements_of cs0 c.
                 \<exists>var param. (var, param, l, k) \<in> set (sens_data_list b'))"
proof -
  let ?cover = "\<lambda>j (b :: block). \<forall>l < j. \<forall>c. es ! l = Some c
            \<and> (ctype_of cs0 c = Some Param \<or> ctype_of cs0 c = Some Var)
          \<longrightarrow> (\<forall>k \<in> elements_of cs0 c.
                 \<exists>var param. (var, param, l, k) \<in> set (sens_data_list b))"
  let ?Q = "\<lambda>j cs (b :: block).
      (\<forall>c cmp. map_of cs0 c = Some cmp \<longrightarrow> map_of cs c = Some cmp)
      \<and> (\<forall>r \<in> set (sens_data_list b). record_ok cs0 es cs r)
      \<and> ?cover j b"
  have same: "map_of cs0 c = Some cmp"
    if "\<forall>c cmp. map_of cs0 c = Some cmp \<longrightarrow> map_of cs c = Some cmp"
      "j < length es" "es ! j = Some c" "map_of cs c = Some cmp" for j cs c cmp
  proof -
    from that(2,3) have "Some c \<in> set es" by (metis nth_mem)
    with resolved obtain cmp0 where "map_of cs0 c = Some cmp0" by auto
    with that(1,4) show ?thesis by auto
  qed
  have grow: "?Q (Suc j) cs1 b1"
    if q: "?Q j cs b" and j: "j < length es" "es ! j = Some c"
      and c0: "map_of cs0 c = Some cmp"
      and new: "\<exists>new x. cs1 = cs @ [(fresh_cid cs, x)]
           \<and> sens_data_list b1 = sens_data_list b @ new
           \<and> (\<forall>r \<in> set new. record_ok cs0 es cs1 r)
           \<and> (\<forall>k \<in> elements_of cs0 c.
                 \<exists>var param. (var, param, j, k) \<in> set new)"
    for j cs b cs1 b1 c cmp
  proof -
    from new obtain new x where n: "cs1 = cs @ [(fresh_cid cs, x)]"
      "sens_data_list b1 = sens_data_list b @ new"
      "\<forall>r \<in> set new. record_ok cs0 es cs1 r"
      "\<forall>k \<in> elements_of cs0 c.
                 \<exists>var param. (var, param, j, k) \<in> set new"
      by blast
    have m: "\<forall>c cmp. map_of cs0 c = Some cmp \<longrightarrow> map_of cs1 c = Some cmp"
      using q n(1) by (simp add: map_add_Some_iff)
    have r: "\<forall>r \<in> set (sens_data_list b1). record_ok cs0 es cs1 r"
    proof
      fix r assume "r \<in> set (sens_data_list b1)"
      with n(2) consider "r \<in> set (sens_data_list b)" | "r \<in> set new" by auto
      then show "record_ok cs0 es cs1 r"
      proof cases
        case 1
        with q have "record_ok cs0 es cs r" by simp
        then show ?thesis unfolding n(1) by (rule record_ok_append)
      next
        case 2
        with n(3) show ?thesis by simp
      qed
    qed
    have c: "?cover (Suc j) b1"
    proof (intro allI impI ballI)
      fix l c' k
      assume l: "l < Suc j"
        and e: "es ! l = Some c' \<and> (ctype_of cs0 c' = Some Param \<or> ctype_of cs0 c' = Some Var)"
        and k: "k \<in> elements_of cs0 c'"
      show "\<exists>var param. (var, param, l, k) \<in> set (sens_data_list b1)"
      proof (cases "l = j")
        case True
        with e j have "c' = c" by simp
        with k n(4) obtain var param where "(var, param, j, k) \<in> set new" by auto
        with n(2) have "(var, param, j, k) \<in> set (sens_data_list b1)" by simp
        with True show ?thesis by blast
      next
        case False
        with l have "l < j" by simp
        with q e k obtain var param where "(var, param, l, k) \<in> set (sens_data_list b)" by blast
        with n(2) have "(var, param, l, k) \<in> set (sens_data_list b1)" by simp
        then show ?thesis by blast
      qed
    qed
    from m r c show ?thesis by simp
  qed
  have "\<exists>j. 0 \<le> j \<and> j \<le> 0 + length es \<and> ?Q j cs' b'
            \<and> (None = (None :: error option) \<longrightarrow> j = 0 + length es)
            \<and> (None \<noteq> (None :: error option)
                  \<longrightarrow> j < 0 + length es \<and> entry_fails cs' (es ! (j - 0)))"
  proof (rule planner_invariant [where Q = ?Q, OF run])
    show "?Q 0 cs0 b0" using empty by simp
  next
    fix j c cmp d cs b cs1 b1
    assume q: "?Q j cs b" and j: "0 \<le> j" "j < 0 + length es" "es ! (j - 0) = Some c"
      and cmp: "map_of cs c = Some cmp"
    from q have mono: "\<forall>c cmp. map_of cs0 c = Some cmp \<longrightarrow> map_of cs c = Some cmp" by simp
    from j have j': "j < length es" "es ! j = Some c" by simp_all
    from same [OF mono j' cmp] have c0: "map_of cs0 c = Some cmp" .
    { assume t: "ctype cmp = Param" "mutable cmp" and init: "initialize cmp = Inr d"
        and a: "add_var uniq j c cmp d cs b = (cs1, b1)"
      from add_var_records [OF a init cmp c0 t(1) j' mono]
      show "?Q (Suc j) cs1 b1" by (rule grow [OF q j' c0]) }
    { assume t: "ctype cmp = Var"
        "\<not> (\<exists>(_, data) \<in> set (generate_component_items c cmp). \<not> fixed_of cs data)"
        and init: "initialize cmp = Inr d"
        and a: "add_param uniq j c cmp d cs b = (cs1, b1)"
      from add_param_records [OF a init cmp c0 t(1) j' mono]
      show "?Q (Suc j) cs1 b1" by (rule grow [OF q j' c0]) }
    { assume t: "ctype cmp \<noteq> Param" "ctype cmp \<noteq> Var"
      have "?cover (Suc j) b"
      proof (intro allI impI ballI)
        fix l c' k
        assume l: "l < Suc j"
          and e: "es ! l = Some c' \<and> (ctype_of cs0 c' = Some Param \<or> ctype_of cs0 c' = Some Var)"
          and k: "k \<in> elements_of cs0 c'"
        have "l \<noteq> j"
        proof
          assume "l = j"
          with e j' have "c' = c" by simp
          with e c0 t show False by (simp add: ctype_of_def)
        qed
        with l have "l < j" by simp
        with q e k show "\<exists>var param. (var, param, l, k) \<in> set (sens_data_list b)" by blast
      qed
      with q show "?Q (Suc j) cs b" by simp }
  qed
  then obtain j where qj: "?Q j cs' b'"
    and "None = (None :: error option) \<longrightarrow> j = 0 + length es"
    by blast
  then have "j = length es" by simp
  with qj have fin: "?Q (length es) cs' b'" by (simp only:)
  show "\<forall>r \<in> set (sens_data_list b'). record_ok cs0 es cs' r"
    by (rule fin [THEN conjunct2, THEN conjunct1])
  show "?cover (length es) b'"
    by (rule fin [THEN conjunct2, THEN conjunct2])
qed


lemma ctype_of_None_iff: "(ctype_of cs c = None) = (map_of cs c = None)"
  by (simp add: ctype_of_def)

lemma record_ok_final:
  assumes ok: "record_ok cs1 (resolve_paramList self pl) cs (var, param, li, k)"
    and mem: "(var, param, li, k) \<in> set sdl"
    and mono: "\<forall>c cmp. map_of cs1 c = Some cmp \<longrightarrow> map_of cs c = Some cmp"
    and cf: "cf = unfix_all sdl cs @ ys"
    and o1: "\<And>c. ctype_of cs1 c = ctype_of co c"
    and o2: "\<And>v. value_of cs1 v = value_of co v"
    and o3: "\<And>c. elements_of cs1 c = elements_of co c"
  shows "li < length pl
       \<and> k \<in> elements_of co (pl ! li)
       \<and> \<not> fixed_of cf var
       \<and> (if ctype_of co (pl ! li) = Some Param
          then param = (pl ! li, k) \<and> snd var = k
               \<and> ctype_of co (fst var) = None \<and> ctype_of cf (fst var) = Some Var
               \<and> elements_of cf (fst var) = elements_of co (pl ! li)
               \<and> value_of co param \<noteq> None
               \<and> value_of cf var = value_of co param
          else ctype_of co (pl ! li) = Some Var
               \<and> var = (pl ! li, k) \<and> snd param = k
               \<and> ctype_of co (fst param) = None \<and> ctype_of cf (fst param) = Some Param
               \<and> mutable_of cf (fst param)
               \<and> elements_of cf (fst param) = elements_of co (pl ! li)
               \<and> value_of co var \<noteq> None
               \<and> value_of cf param = value_of co var)"
proof -
  let ?c = "pl ! li"
  from ok have li: "li < length pl" by (simp add: record_ok_def)
  from ok li obtain c where c: "resolve_paramList self pl ! li = Some c"
    by (auto simp: record_ok_def split: option.splits)
  from resolve_paramList_nth(1) [OF li c] have cc: "c = ?c" .
  from ok li c cc have key: "k \<in> elements_of cs1 ?c" and hv: "value_of cs1 (?c, k) \<noteq> None"
    by (simp_all add: record_ok_def)
  have fin_value: "value_of cf v = value_of cs v" if "map_of cs (fst v) \<noteq> None" for v
    using that by (simp add: cf value_of_append_old)
  have fin_ctype: "ctype_of cf x = Some t" if "ctype_of cs x = Some t" for x t
    using that by (simp add: cf ctype_of_append_old)
  have fin_mutable: "mutable_of cf x = mutable_of cs x" if "map_of cs x \<noteq> None" for x
    using that by (simp add: cf mutable_of_append_old)
  have fin_elements: "elements_of cf x = elements_of cs x" if "map_of cs x \<noteq> None" for x
    using that by (simp add: cf elements_of_append_old)
  have fin_unfixed: "\<not> fixed_of cf var" if "map_of cs (fst var) \<noteq> None"
  proof -
    from mem have "var \<in> fst ` set sdl" by force
    with that have "\<not> fixed_of (unfix_all sdl cs) var" by (simp add: fixed_of_unfix_all)
    with that show ?thesis by (simp add: cf fixed_of_append_old)
  qed
  from key have key': "k \<in> elements_of co ?c" by (simp add: o3)
  from hv have hv': "value_of co (?c, k) \<noteq> None" by (simp add: o2)
  show ?thesis
  proof (cases "ctype_of cs1 ?c = Some Param")
    case True
    with ok li c cc have p: "param = (?c, k)" "snd var = k" "map_of cs1 (fst var) = None"
      "ctype_of cs (fst var) = Some Var" "value_of cs var = value_of cs1 (?c, k)"
      "elements_of cs (fst var) = elements_of cs1 ?c"
      by (simp_all add: record_ok_def)
    from p(4) have dom: "map_of cs (fst var) \<noteq> None" by (rule ctype_of_Some_dom)
    from p(3) have "ctype_of cs1 (fst var) = None" by (simp add: ctype_of_None_iff)
    then have new: "ctype_of co (fst var) = None" by (simp add: o1)
    from True have t: "ctype_of co ?c = Some Param" by (simp add: o1)
    have v: "value_of cf var = value_of co param"
      using fin_value [OF dom] p(1,5) by (simp add: o2)
    have el: "elements_of cf (fst var) = elements_of co ?c"
      using fin_elements [OF dom] p(6) by (simp add: o3)
    from hv' p(1) have h: "value_of co param \<noteq> None" by simp
    from li key' fin_unfixed [OF dom] t p(1,2) new fin_ctype [OF p(4)] el h v
    show ?thesis by simp
  next
    case False
    with ok li c cc have p: "ctype_of cs1 ?c = Some Var" "var = (?c, k)" "snd param = k"
      "map_of cs1 (fst param) = None" "ctype_of cs (fst param) = Some Param"
      "mutable_of cs (fst param)" "value_of cs param = value_of cs1 (?c, k)"
      "elements_of cs (fst param) = elements_of cs1 ?c"
      by (simp_all add: record_ok_def)
    from p(5) have dom: "map_of cs (fst param) \<noteq> None" by (rule ctype_of_Some_dom)
    from p(1) obtain cmp where "map_of cs1 ?c = Some cmp" by (auto simp: ctype_of_def)
    with mono have "map_of cs ?c = Some cmp" by simp
    with p(2) have vdom: "map_of cs (fst var) \<noteq> None" by simp
    from p(4) have "ctype_of cs1 (fst param) = None" by (simp add: ctype_of_None_iff)
    then have new: "ctype_of co (fst param) = None" by (simp add: o1)
    from False p(1) have t: "ctype_of co ?c \<noteq> Some Param" "ctype_of co ?c = Some Var"
      by (simp_all add: o1 [symmetric])
    have v: "value_of cf param = value_of co var"
      using fin_value [OF dom] p(2,7) by (simp add: o2)
    have m: "mutable_of cf (fst param)"
      using fin_mutable [OF dom] p(6) by simp
    have el: "elements_of cf (fst param) = elements_of co ?c"
      using fin_elements [OF dom] p(8) by (simp add: o3)
    from hv' p(2) have h: "value_of co var \<noteq> None" by simp
    from li key' fin_unfixed [OF vdom] t p(2,3) new fin_ctype [OF p(5)] m el h v
    show ?thesis by simp
  qed
qed

text \<open>
  C6. After a successful setup every record belongs to an element of a designated
  component (a member of its index set, or the component itself when it is
  scalar), and its free entity is unfixed. For a designated parameter the record's
  parameter is that element, which has a value, and its free entity is the same
  element of a variable that did not exist before, has the same elements, and
  holds the parameter's value. For a designated variable the record's free entity
  is that element (so the original variable is unfixed), which has a value, and
  its parameter is the same element of a mutable parameter that did not exist
  before, has the same elements, and holds the variable's value. Every element of
  every designated parameter or variable has such a record.
\<close>

theorem substitutes_initialised:
  assumes "setup_sensitivity uniq self paramList = (None, self')"
  shows "\<exists>b. sens_block (model_instance self') = Some b
     \<and> (\<forall>r \<in> set (sens_data_list b).
          (case r of (var, param, list_idx, comp_idx) \<Rightarrow>
             list_idx < length paramList
           \<and> comp_idx \<in> elements_of (comps (model_instance self)) (paramList ! list_idx)
           \<and> \<not> fixed_of (comps (model_instance self')) var
           \<and> (if ctype_of (comps (model_instance self)) (paramList ! list_idx) = Some Param
              then param = (paramList ! list_idx, comp_idx) \<and> snd var = comp_idx
                   \<and> ctype_of (comps (model_instance self)) (fst var) = None
                   \<and> ctype_of (comps (model_instance self')) (fst var) = Some Var
                   \<and> elements_of (comps (model_instance self')) (fst var)
                       = elements_of (comps (model_instance self)) (paramList ! list_idx)
                   \<and> value_of (comps (model_instance self)) param \<noteq> None
                   \<and> value_of (comps (model_instance self')) var
                       = value_of (comps (model_instance self)) param
              else ctype_of (comps (model_instance self)) (paramList ! list_idx) = Some Var
                   \<and> var = (paramList ! list_idx, comp_idx) \<and> snd param = comp_idx
                   \<and> ctype_of (comps (model_instance self)) (fst param) = None
                   \<and> ctype_of (comps (model_instance self')) (fst param) = Some Param
                   \<and> mutable_of (comps (model_instance self')) (fst param)
                   \<and> elements_of (comps (model_instance self')) (fst param)
                       = elements_of (comps (model_instance self)) (paramList ! list_idx)
                   \<and> value_of (comps (model_instance self)) var \<noteq> None
                   \<and> value_of (comps (model_instance self')) param
                       = value_of (comps (model_instance self)) var)))
     \<and> (\<forall>i < length paramList.
           ctype_of (comps (model_instance self)) (paramList ! i) = Some Param
           \<or> ctype_of (comps (model_instance self)) (paramList ! i) = Some Var
           \<longrightarrow> (\<forall>k \<in> elements_of (comps (model_instance self)) (paramList ! i).
                  \<exists>var param. (var, param, i, k) \<in> set (sens_data_list b)))"
proof -
  let ?inst = "model_instance self"
  let ?co = "comps ?inst"
  let ?es = "resolve_paramList self paramList"
  from assms obtain inst1 cs b inst2 b2 inst3 where
    re: "remove_existing_block ?inst = Inr inst1"
    and pl: "planner uniq 0 ?es (comps inst1) (new_block ?es) = (None, cs, b)"
    and rw: "rewrite_expressions uniq ?es (inst1\<lparr>comps := unfix_all (sens_data_list b) cs\<rparr>) b
               = (None, inst2, b2)"
    and pa: "pin_and_annotate inst2 b2 = (None, inst3)"
    and s: "self' = self\<lparr>has_block := True, model_instance := inst3\<rparr>"
    by (rule setup_sensitivity_success)
  note o = remove_existing_block_frame [OF re]
  have resolved: "\<forall>c. Some c \<in> set ?es \<longrightarrow> map_of (comps inst1) c \<noteq> None"
    by (auto dest: resolve_paramList_mem(2) simp: o(9))
  have recs: "\<forall>r \<in> set (sens_data_list b). record_ok (comps inst1) ?es cs r"
    and cover: "\<forall>l < length ?es. \<forall>c. ?es ! l = Some c
            \<and> (ctype_of (comps inst1) c = Some Param \<or> ctype_of (comps inst1) c = Some Var)
          \<longrightarrow> (\<forall>k \<in> elements_of (comps inst1) c.
                 \<exists>var param. (var, param, l, k) \<in> set (sens_data_list b))"
    using planner_records [OF pl resolved] by simp_all
  from planner_passes [OF pl resolved]
  have passed: "\<forall>entry \<in> set ?es. \<not> entry_fails (comps inst1) entry" by simp
  have mono: "\<forall>c cmp. map_of (comps inst1) c = Some cmp \<longrightarrow> map_of cs c = Some cmp"
    using planner_store_grows [OF pl] by blast
  from rewrite_expressions_frame [OF rw]
  have i2: "comps inst2 = unfix_all (sens_data_list b) cs" "sens_data_list b2 = sens_data_list b"
    by simp_all
  from pin_and_annotate_frame(2) [OF pa] obtain clist where
    cf: "comps inst3 = unfix_all (sens_data_list b) cs @ [(fresh_cid (comps inst2), clist)]"
    by (auto simp: i2)
  let ?b = "b2\<lparr>paramConst := Some (fresh_cid (comps inst2),
                                   map pinning_constraint (sens_data_list b2))\<rparr>"
  have blk: "sens_block (model_instance self') = Some ?b"
    using pin_and_annotate_frame(1) [OF pa] s by simp
  have sdl: "sens_data_list ?b = sens_data_list b" by (simp add: i2)
  have cf': "comps (model_instance self') = comps inst3" using s by simp
  have part1: "case r of (var, param, list_idx, comp_idx) \<Rightarrow>
             list_idx < length paramList
           \<and> comp_idx \<in> elements_of ?co (paramList ! list_idx)
           \<and> \<not> fixed_of (comps inst3) var
           \<and> (if ctype_of ?co (paramList ! list_idx) = Some Param
              then param = (paramList ! list_idx, comp_idx) \<and> snd var = comp_idx
                   \<and> ctype_of ?co (fst var) = None
                   \<and> ctype_of (comps inst3) (fst var) = Some Var
                   \<and> elements_of (comps inst3) (fst var) = elements_of ?co (paramList ! list_idx)
                   \<and> value_of ?co param \<noteq> None
                   \<and> value_of (comps inst3) var = value_of ?co param
              else ctype_of ?co (paramList ! list_idx) = Some Var
                   \<and> var = (paramList ! list_idx, comp_idx) \<and> snd param = comp_idx
                   \<and> ctype_of ?co (fst param) = None
                   \<and> ctype_of (comps inst3) (fst param) = Some Param
                   \<and> mutable_of (comps inst3) (fst param)
                   \<and> elements_of (comps inst3) (fst param) = elements_of ?co (paramList ! list_idx)
                   \<and> value_of ?co var \<noteq> None
                   \<and> value_of (comps inst3) param = value_of ?co var)"
    if r: "r \<in> set (sens_data_list b)" for r
  proof -
    obtain var param li k where rr: "r = (var, param, li, k)" by (cases r)
    from recs r rr have ok: "record_ok (comps inst1) ?es cs (var, param, li, k)" by simp
    from r rr have mem: "(var, param, li, k) \<in> set (sens_data_list b)" by simp
    show ?thesis
      unfolding rr prod.case
      by (rule record_ok_final [OF ok mem mono cf o(5) o(6) o(11)])
  qed
  have part2: "\<forall>k \<in> elements_of ?co (paramList ! i).
                  \<exists>var param. (var, param, i, k) \<in> set (sens_data_list b)"
    if i: "i < length paramList"
      and t: "ctype_of ?co (paramList ! i) = Some Param \<or> ctype_of ?co (paramList ! i) = Some Var"
    for i
  proof -
    from i have "?es ! i \<in> set ?es" by simp
    with passed have "\<not> entry_fails (comps inst1) (?es ! i)" by blast
    then obtain c where c: "?es ! i = Some c"
      by (cases "?es ! i") (auto simp: entry_fails_def)
    from resolve_paramList_nth(1) [OF i c] c have e: "?es ! i = Some (paramList ! i)" by simp
    from t have t1: "ctype_of (comps inst1) (paramList ! i) = Some Param
                   \<or> ctype_of (comps inst1) (paramList ! i) = Some Var"
      by (simp add: o(5))
    from cover [rule_format, of i "paramList ! i"] i e t1
    show ?thesis by (simp add: o(11))
  qed
  show ?thesis
  proof (intro exI [of _ ?b] conjI)
    show "sens_block (model_instance self') = Some ?b" by (rule blk)
    show "\<forall>r \<in> set (sens_data_list ?b).
          (case r of (var, param, list_idx, comp_idx) \<Rightarrow>
             list_idx < length paramList
           \<and> comp_idx \<in> elements_of (comps (model_instance self)) (paramList ! list_idx)
           \<and> \<not> fixed_of (comps (model_instance self')) var
           \<and> (if ctype_of (comps (model_instance self)) (paramList ! list_idx) = Some Param
              then param = (paramList ! list_idx, comp_idx) \<and> snd var = comp_idx
                   \<and> ctype_of (comps (model_instance self)) (fst var) = None
                   \<and> ctype_of (comps (model_instance self')) (fst var) = Some Var
                   \<and> elements_of (comps (model_instance self')) (fst var)
                       = elements_of (comps (model_instance self)) (paramList ! list_idx)
                   \<and> value_of (comps (model_instance self)) param \<noteq> None
                   \<and> value_of (comps (model_instance self')) var
                       = value_of (comps (model_instance self)) param
              else ctype_of (comps (model_instance self)) (paramList ! list_idx) = Some Var
                   \<and> var = (paramList ! list_idx, comp_idx) \<and> snd param = comp_idx
                   \<and> ctype_of (comps (model_instance self)) (fst param) = None
                   \<and> ctype_of (comps (model_instance self')) (fst param) = Some Param
                   \<and> mutable_of (comps (model_instance self')) (fst param)
                   \<and> elements_of (comps (model_instance self')) (fst param)
                       = elements_of (comps (model_instance self)) (paramList ! list_idx)
                   \<and> value_of (comps (model_instance self)) var \<noteq> None
                   \<and> value_of (comps (model_instance self')) param
                       = value_of (comps (model_instance self)) var))"
      unfolding sdl cf' using part1 by (rule ballI)
    show "\<forall>i < length paramList.
           ctype_of (comps (model_instance self)) (paramList ! i) = Some Param
           \<or> ctype_of (comps (model_instance self)) (paramList ! i) = Some Var
           \<longrightarrow> (\<forall>k \<in> elements_of (comps (model_instance self)) (paramList ! i).
                  \<exists>var param. (var, param, i, k) \<in> set (sens_data_list ?b))"
      unfolding sdl using part2 by blast
  qed
qed

theorem substitutes_initialised_witness:
  "setup_sensitivity namer0 sens_indexed [0, 1]
     = (None, snd (setup_sensitivity namer0 sens_indexed [0, 1]))
   \<and> (\<exists>b. sens_block (model_instance (snd (setup_sensitivity namer0 sens_indexed [0, 1]))) = Some b
          \<and> (\<exists>var param. (var, param, 0, Idx 1) \<in> set (sens_data_list b))
          \<and> (\<exists>var param. (var, param, 0, Idx 2) \<in> set (sens_data_list b))
          \<and> (\<exists>var param. (var, param, 1, Idx 1) \<in> set (sens_data_list b))
          \<and> (\<exists>var param. (var, param, 1, Idx 2) \<in> set (sens_data_list b)))
   \<and> elements_of (comps (model_instance sens_indexed)) 0 = {Idx 1, Idx 2}
   \<and> elements_of (comps (model_instance sens_indexed)) 1 = {Idx 1, Idx 2}
   \<and> map_option sens_data_list
        (sens_block (model_instance (snd (setup_sensitivity namer0 sens_indexed [0, 1]))))
       = Some [((5, Idx 1), (0, Idx 1), 0, Idx 1), ((5, Idx 2), (0, Idx 2), 0, Idx 2),
               ((1, Idx 1), (6, Idx 1), 1, Idx 1), ((1, Idx 2), (6, Idx 2), 1, Idx 2)]
   \<and> map (value_of (comps (model_instance (snd (setup_sensitivity namer0 sens_indexed [0, 1])))))
        [(5, Idx 1), (5, Idx 2), (6, Idx 1), (6, Idx 2)]
       = [Some 3, Some 4, Some 7, Some 8]
   \<and> map (fixed_of (comps (model_instance sens_indexed))) [(1, Idx 1), (1, Idx 2)]
       = [True, True]
   \<and> map (fixed_of (comps (model_instance (snd (setup_sensitivity namer0 sens_indexed [0, 1])))))
        [(1, Idx 1), (1, Idx 2), (5, Idx 1), (5, Idx 2)]
       = [False, False, False, False]"
proof -
  let ?s = "snd (setup_sensitivity namer0 sens_indexed [0, 1])"
  let ?co = "comps (model_instance sens_indexed)"
  have "fst (setup_sensitivity namer0 sens_indexed [0, 1]) = None" by code_simp
  then have a: "setup_sensitivity namer0 sens_indexed [0, 1] = (None, ?s)"
    by (simp add: prod_eq_iff)
  have cs: "?co = [(0, q_comp), (1, z_comp), (2, w_comp), (3, u_comp), (4, r_comp)]"
    by (simp add: sens_indexed_def SensitivityInterface_init_def model_indexed_def clone_def)
  have t: "ctype_of ?co ([0, 1] ! 0) = Some Param" "ctype_of ?co ([0, 1] ! 1) = Some Var"
    by (simp_all add: cs ctype_of_def q_comp_def z_comp_def)
  have el: "elements_of ?co 0 = {Idx 1, Idx 2}" "elements_of ?co 1 = {Idx 1, Idx 2}"
    by (auto simp: cs elements_of_def q_comp_def z_comp_def)
  from substitutes_initialised [OF a] obtain b where
    b: "sens_block (model_instance ?s) = Some b"
    and cover: "\<forall>i < length [0, 1 :: nat].
           ctype_of ?co ([0, 1] ! i) = Some Param \<or> ctype_of ?co ([0, 1] ! i) = Some Var
           \<longrightarrow> (\<forall>k \<in> elements_of ?co ([0, 1] ! i).
                  \<exists>var param. (var, param, i, k) \<in> set (sens_data_list b))"
    by blast
  have r01: "\<exists>var param. (var, param, 0, Idx 1) \<in> set (sens_data_list b)"
    using cover [rule_format, of 0 "Idx 1"] t(1) el(1) by simp
  have r02: "\<exists>var param. (var, param, 0, Idx 2) \<in> set (sens_data_list b)"
    using cover [rule_format, of 0 "Idx 2"] t(1) el(1) by simp
  have r11: "\<exists>var param. (var, param, 1, Idx 1) \<in> set (sens_data_list b)"
    using cover [rule_format, of 1 "Idx 1"] t(2) el(2) by simp
  have r12: "\<exists>var param. (var, param, 1, Idx 2) \<in> set (sens_data_list b)"
    using cover [rule_format, of 1 "Idx 2"] t(2) el(2) by simp
  have e1: "map_option sens_data_list (sens_block (model_instance ?s))
       = Some [((5, Idx 1), (0, Idx 1), 0, Idx 1), ((5, Idx 2), (0, Idx 2), 0, Idx 2),
               ((1, Idx 1), (6, Idx 1), 1, Idx 1), ((1, Idx 2), (6, Idx 2), 1, Idx 2)]"
    by code_simp
  have e2: "map (value_of (comps (model_instance ?s)))
        [(5, Idx 1), (5, Idx 2), (6, Idx 1), (6, Idx 2)]
       = [Some 3, Some 4, Some 7, Some 8]"
    by code_simp
  have e3: "map (fixed_of ?co) [(1, Idx 1), (1, Idx 2)] = [True, True]"
    by code_simp
  have e4: "map (fixed_of (comps (model_instance ?s)))
        [(1, Idx 1), (1, Idx 2), (5, Idx 1), (5, Idx 2)]
       = [False, False, False, False]"
    by code_simp
  from b r01 r02 r11 r12 have "\<exists>b. sens_block (model_instance ?s) = Some b
          \<and> (\<exists>var param. (var, param, 0, Idx 1) \<in> set (sens_data_list b))
          \<and> (\<exists>var param. (var, param, 0, Idx 2) \<in> set (sens_data_list b))
          \<and> (\<exists>var param. (var, param, 1, Idx 1) \<in> set (sens_data_list b))
          \<and> (\<exists>var param. (var, param, 1, Idx 2) \<in> set (sens_data_list b))"
    by blast
  with a el e1 e2 e3 e4 show ?thesis by (intro conjI)
qed
section \<open>Artifact relocation\<close>

lemma move_all_stops:
  "dsdp W = Some d \<Longrightarrow> distinct pre \<Longrightarrow> set pre \<subseteq> cwd W \<Longrightarrow> set pre \<inter> d = {}
   \<Longrightarrow> f \<notin> cwd W \<or> f \<in> d
   \<Longrightarrow> move_all (pre @ f # post) W = W\<lparr>cwd := cwd W - set pre, dsdp := Some (d \<union> set pre)\<rparr>"
proof (induction pre arbitrary: W d)
  case Nil
  then show ?case by (auto simp: shutil_move_def)
next
  case (Cons a pre)
  let ?W = "W\<lparr>cwd := cwd W - {a}, dsdp := Some (insert a d)\<rparr>"
  have mv: "shutil_move a W = Inr ?W"
    using Cons.prems by (auto simp: shutil_move_def)
  have "move_all (pre @ f # post) ?W
        = ?W\<lparr>cwd := cwd ?W - set pre, dsdp := Some (insert a d \<union> set pre)\<rparr>"
    using Cons.prems by (intro Cons.IH) auto
  moreover have "cwd W - {a} - set pre = cwd W - set (a # pre)" by auto
  moreover have "insert a d \<union> set pre = d \<union> set (a # pre)" by auto
  ultimately show ?case using mv by simp
qed

lemma distinct_kaug_artifacts: "distinct kaug_artifacts"
  by (simp add: kaug_artifacts_def)

text \<open>
  C10. The nine files are moved in the order of \<open>kaug_artifacts\<close> inside one
  exception-handled region. When the files before \<open>f\<close> in that order can all be moved
  and the move of \<open>f\<close> fails (it is absent from the working directory, or \<open>dsdp\<close>
  already holds a file of its name), the relocation still returns, exactly the files
  before \<open>f\<close> have been moved, and every file after \<open>f\<close> that was in the working
  directory is still there.
\<close>

theorem relocate_stops_at_first_failure:
  assumes "kaug_artifacts = pre @ f # post"
    and "set pre \<subseteq> cwd W"
    and "\<forall>d. dsdp W = Some d \<longrightarrow> set pre \<inter> d = {}"
    and "f \<notin> cwd W \<or> (\<exists>d. dsdp W = Some d \<and> f \<in> d)"
  shows "cwd (relocate_artifacts W) = cwd W - set pre
       \<and> dsdp (relocate_artifacts W) = Some ((case dsdp W of None \<Rightarrow> {} | Some d \<Rightarrow> d) \<union> set pre)
       \<and> invoked (relocate_artifacts W) = invoked W
       \<and> (\<forall>g \<in> set post. g \<in> cwd W \<longrightarrow> g \<in> cwd (relocate_artifacts W))"
proof -
  let ?W0 = "makedirs_dsdp W"
  let ?d = "case dsdp W of None \<Rightarrow> {} | Some d \<Rightarrow> d"
  have d0: "dsdp ?W0 = Some ?d" and c0: "cwd ?W0 = cwd W" and i0: "invoked ?W0 = invoked W"
    by (auto simp: makedirs_dsdp_def split: option.splits)
  have dist: "distinct (pre @ f # post)"
    using distinct_kaug_artifacts assms(1) by simp
  have disj: "set pre \<inter> ?d = {}"
    using assms(3) by (auto split: option.splits)
  have fails: "f \<notin> cwd ?W0 \<or> f \<in> ?d"
    using assms(4) c0 by (auto split: option.splits)
  have "move_all (pre @ f # post) ?W0
        = ?W0\<lparr>cwd := cwd ?W0 - set pre, dsdp := Some (?d \<union> set pre)\<rparr>"
    using d0 dist assms(2) c0 disj fails by (intro move_all_stops) auto
  then have r: "relocate_artifacts W = ?W0\<lparr>cwd := cwd W - set pre, dsdp := Some (?d \<union> set pre)\<rparr>"
    using assms(1) c0 by (simp add: relocate_artifacts_def)
  have "\<forall>g \<in> set post. g \<notin> set pre" using dist by auto
  then show ?thesis using r i0 by auto
qed

theorem relocate_stops_at_first_failure_witness:
  "kaug_artifacts = [] @ ''dsdp_in_.in'' # tl kaug_artifacts
   \<and> ''col_row.nl'' \<in> set (tl kaug_artifacts)
   \<and> ''col_row.nl'' \<in> cwd world0
   \<and> cwd (relocate_artifacts world0) = cwd world0
   \<and> ''col_row.nl'' \<in> cwd (relocate_artifacts world0)"
proof -
  have a: "kaug_artifacts = [] @ ''dsdp_in_.in'' # tl kaug_artifacts"
    by (simp add: kaug_artifacts_def)
  have b: "set [] \<subseteq> cwd world0" by simp
  have c: "\<forall>d. dsdp world0 = Some d \<longrightarrow> set [] \<inter> d = {}" by simp
  have d: "''dsdp_in_.in'' \<notin> cwd world0 \<or> (\<exists>d. dsdp world0 = Some d \<and> ''dsdp_in_.in'' \<in> d)"
    by (simp add: world0_def)
  have e: "''col_row.nl'' \<in> set (tl kaug_artifacts)" by (simp add: kaug_artifacts_def)
  have f: "''col_row.nl'' \<in> cwd world0" by (simp add: world0_def)
  show ?thesis
    using relocate_stops_at_first_failure [OF a b c d] a e f by auto
qed

end
